theory Spec2Isabelle
  imports Complex_Main "HOL-Library.Word" "HOL-Library.AList"
begin

section \<open>Go standard library functions used by the server\<close>

text \<open>
  Go strings are byte sequences: \<^typ>\<open>string\<close> (a list of 8-bit \<^typ>\<open>char\<close>).
  The functions of package \<open>strings\<close> that \<open>server.go\<close> calls are modelled on bytes.
\<close>

definition nl :: char where
  "nl = CHR 0x0A"

text \<open>\<open>strings.Split(s, sep)\<close> for a separator of one byte (the server splits at newlines):
  a string with \<open>n\<close> separators gives \<open>n + 1\<close> pieces, the empty string gives one empty piece.\<close>

fun strings_Split :: "string \<Rightarrow> char \<Rightarrow> string list" where
  "strings_Split [] sep = [[]]"
| "strings_Split (c # cs) sep =
     (if c = sep then [] # strings_Split cs sep
      else (case strings_Split cs sep of
              [] \<Rightarrow> [[c]]
            | l # ls \<Rightarrow> (c # l) # ls))"

text \<open>\<open>strings.Join(elems, sep)\<close>.\<close>

fun strings_Join :: "string list \<Rightarrow> string \<Rightarrow> string" where
  "strings_Join [] sep = []"
| "strings_Join [x] sep = x"
| "strings_Join (x # y # ys) sep = x @ sep @ strings_Join (y # ys) sep"

text \<open>\<open>strings.HasPrefix\<close>, \<open>strings.TrimPrefix\<close> and \<open>strings.Contains\<close>.\<close>

definition strings_HasPrefix :: "string \<Rightarrow> string \<Rightarrow> bool" where
  "strings_HasPrefix s prefix = (take (length prefix) s = prefix)"

definition strings_TrimPrefix :: "string \<Rightarrow> string \<Rightarrow> string" where
  "strings_TrimPrefix s prefix = (if strings_HasPrefix s prefix then drop (length prefix) s else s)"

fun strings_Contains :: "string \<Rightarrow> string \<Rightarrow> bool" where
  "strings_Contains [] substr = (substr = [])"
| "strings_Contains (c # cs) substr =
     (strings_HasPrefix (c # cs) substr \<or> strings_Contains cs substr)"

text \<open>
  White space is what \<open>unicode.IsSpace\<close> accepts: the six ASCII characters tab, line feed,
  vertical tab, form feed, carriage return and space, and the code points U+0085, U+00A0,
  U+1680, U+2000 to U+200A, U+2028, U+2029, U+202F, U+205F and U+3000 in their UTF-8
  encoding. \<open>space_width s\<close> is the number of bytes of the white space character at the
  head of \<open>s\<close> (0 when there is none), \<open>space_width_end s\<close> the same at its end.
  A white space encoding starts with an ASCII byte or a UTF-8 lead byte, so it always sits
  on a character boundary of Go's decoder.
\<close>

definition ascii_space :: "char list" where
  "ascii_space = [CHR 0x09, CHR 0x0A, CHR 0x0B, CHR 0x0C, CHR 0x0D, CHR 0x20]"

definition space2 :: "string list" where
  "space2 = [[CHR 0xC2, CHR 0x85], [CHR 0xC2, CHR 0xA0]]"

definition space3 :: "string list" where
  "space3 = [[CHR 0xE1, CHR 0x9A, CHR 0x80],
     [CHR 0xE2, CHR 0x80, CHR 0x80], [CHR 0xE2, CHR 0x80, CHR 0x81],
     [CHR 0xE2, CHR 0x80, CHR 0x82], [CHR 0xE2, CHR 0x80, CHR 0x83],
     [CHR 0xE2, CHR 0x80, CHR 0x84], [CHR 0xE2, CHR 0x80, CHR 0x85],
     [CHR 0xE2, CHR 0x80, CHR 0x86], [CHR 0xE2, CHR 0x80, CHR 0x87],
     [CHR 0xE2, CHR 0x80, CHR 0x88], [CHR 0xE2, CHR 0x80, CHR 0x89],
     [CHR 0xE2, CHR 0x80, CHR 0x8A], [CHR 0xE2, CHR 0x80, CHR 0xA8],
     [CHR 0xE2, CHR 0x80, CHR 0xA9], [CHR 0xE2, CHR 0x80, CHR 0xAF],
     [CHR 0xE2, CHR 0x81, CHR 0x9F], [CHR 0xE3, CHR 0x80, CHR 0x80]]"

definition space_width :: "string \<Rightarrow> nat" where
  "space_width s =
     (if take 1 s \<in> set (map (\<lambda>c. [c]) ascii_space) then 1
      else if take 2 s \<in> set space2 then 2
      else if take 3 s \<in> set space3 then 3
      else 0)"

definition space_width_end :: "string \<Rightarrow> nat" where
  "space_width_end s =
     (if rev (take 1 (rev s)) \<in> set (map (\<lambda>c. [c]) ascii_space) then 1
      else if rev (take 2 (rev s)) \<in> set space2 then 2
      else if rev (take 3 (rev s)) \<in> set space3 then 3
      else 0)"

lemma take_in_set_length:
  "take n s \<in> set xs \<Longrightarrow> \<forall>x \<in> set xs. length x = n \<Longrightarrow> n \<le> length s"
proof -
  assume "take n s \<in> set xs" "\<forall>x \<in> set xs. length x = n"
  then have "length (take n s) = n" by blast
  then show ?thesis by simp
qed

lemma space_width_le: "space_width s \<le> length s"
proof -
  have "take 1 s \<in> set (map (\<lambda>c. [c]) ascii_space) \<Longrightarrow> 1 \<le> length s"
    using take_in_set_length [of 1 s "map (\<lambda>c. [c]) ascii_space"] by force
  moreover have "take 2 s \<in> set space2 \<Longrightarrow> 2 \<le> length s"
    using take_in_set_length [of 2 s space2] by (force simp: space2_def)
  moreover have "take 3 s \<in> set space3 \<Longrightarrow> 3 \<le> length s"
    using take_in_set_length [of 3 s space3] by (force simp: space3_def)
  ultimately show ?thesis unfolding space_width_def by presburger
qed

lemma space_width_end_le: "space_width_end s \<le> length s"
proof -
  have "rev (take 1 (rev s)) \<in> set (map (\<lambda>c. [c]) ascii_space) \<Longrightarrow> 1 \<le> length s"
    using take_in_set_length [of 1 "rev s" "map rev (map (\<lambda>c. [c]) ascii_space)"] by force
  moreover have "rev (take 2 (rev s)) \<in> set space2 \<Longrightarrow> 2 \<le> length s"
    using take_in_set_length [of 2 "rev s" "map rev space2"] by (force simp: space2_def)
  moreover have "rev (take 3 (rev s)) \<in> set space3 \<Longrightarrow> 3 \<le> length s"
    using take_in_set_length [of 3 "rev s" "map rev space3"] by (force simp: space3_def)
  ultimately show ?thesis unfolding space_width_end_def by presburger
qed

text \<open>\<open>strings.TrimSpace\<close>: leading white space is removed, then trailing white space.\<close>

function trim_left :: "string \<Rightarrow> string" where
  "trim_left s = (if space_width s = 0 then s else trim_left (drop (space_width s) s))"
  by pat_completeness auto
termination
proof (relation "measure length", goal_cases)
  case 1
  show ?case by simp
next
  case (2 s)
  then show ?case using space_width_le [of s] by (cases s) auto
qed

function trim_right :: "string \<Rightarrow> string" where
  "trim_right s =
     (if space_width_end s = 0 then s else trim_right (take (length s - space_width_end s) s))"
  by pat_completeness auto
termination
proof (relation "measure length", goal_cases)
  case 1
  show ?case by simp
next
  case (2 s)
  then show ?case using space_width_end_le [of s] by (cases s) auto
qed

declare trim_left.simps [simp del] trim_right.simps [simp del]

definition strings_TrimSpace :: "string \<Rightarrow> string" where
  "strings_TrimSpace s = trim_right (trim_left s)"

text \<open>\<open>strings.Fields\<close>: the maximal runs of bytes that are not white space.\<close>

fun take_field :: "string \<Rightarrow> string \<times> string" where
  "take_field [] = ([], [])"
| "take_field (c # cs) =
     (if space_width (c # cs) > 0 then ([], c # cs)
      else (case take_field cs of (field, rest) \<Rightarrow> (c # field, rest)))"

lemma take_field_length: "length (snd (take_field s)) \<le> length s"
  by (induction s) (auto split: prod.splits)

function strings_Fields :: "string \<Rightarrow> string list" where
  "strings_Fields s =
     (if s = [] then []
      else if space_width s > 0 then strings_Fields (drop (space_width s) s)
      else fst (take_field s) # strings_Fields (snd (take_field s)))"
  by pat_completeness auto
termination
proof (relation "measure length", goal_cases)
  case 1
  show ?case by simp
next
  case (2 s)
  then show ?case by (cases s) auto
next
  case (3 s)
  then obtain c cs where s: "s = c # cs" by (cases s) auto
  with 3 have "snd (take_field s) = snd (take_field cs)" by (simp split: prod.splits)
  then show ?case using take_field_length [of cs] s by simp
qed

declare strings_Fields.simps [simp del]

text \<open>
  \<open>path.Clean\<close>, by its documented rules: empty and \<open>.\<close> elements are dropped, an inner
  \<open>..\<close> removes the element before it, a \<open>..\<close> at the start of a rooted path is dropped,
  and the empty result is \<open>.\<close>. \<open>path.Join\<close> and (on Unix) \<open>filepath.Join\<close> join their
  elements with a slash and clean the result.
\<close>

fun clean_elems :: "bool \<Rightarrow> string list \<Rightarrow> string list \<Rightarrow> string list" where
  "clean_elems rooted out [] = rev out"
| "clean_elems rooted out (e # es) =
     (if e = [] \<or> e = ''.'' then clean_elems rooted out es
      else if e = ''..'' then
        (case out of
           [] \<Rightarrow> if rooted then clean_elems rooted [] es else clean_elems rooted [e] es
         | t # ts \<Rightarrow> if t = ''..'' then clean_elems rooted (e # out) es
                     else clean_elems rooted ts es)
      else clean_elems rooted (e # out) es)"

definition path_Clean :: "string \<Rightarrow> string" where
  "path_Clean p =
     (let rooted = strings_HasPrefix p ''/'';
          r = (if rooted then ''/'' else []) @
              strings_Join (clean_elems rooted [] (strings_Split p CHR ''/'')) ''/''
      in if r = [] then ''.'' else r)"

fun join_buf :: "string \<Rightarrow> string list \<Rightarrow> string" where
  "join_buf buf [] = buf"
| "join_buf buf (e # es) =
     (if buf \<noteq> [] \<or> e \<noteq> []
      then join_buf ((if buf \<noteq> [] then buf @ ''/'' else buf) @ e) es
      else join_buf buf es)"

definition path_Join :: "string list \<Rightarrow> string" where
  "path_Join elem = (if concat elem = [] then [] else path_Clean (join_buf [] elem))"

definition filepath_Join :: "string list \<Rightarrow> string" where
  "filepath_Join elem =
     (case dropWhile (\<lambda>e. e = []) elem of
        [] \<Rightarrow> []
      | es \<Rightarrow> path_Clean (strings_Join es ''/''))"

definition filepath_IsAbs :: "string \<Rightarrow> bool" where
  "filepath_IsAbs p = strings_HasPrefix p ''/''"

subsection \<open>Machine integers\<close>

text \<open>
  Go's \<open>int\<close> is a 64-bit two's complement integer on the platforms the server is built
  for. Parameters of type \<open>int\<close> are \<^typ>\<open>64 word\<close>, read as signed by \<^const>\<open>sint\<close>;
  every arithmetic operation on them wraps around, which \<open>wrap64\<close> writes out.
  Division truncates towards zero (\<open>quo\<close>).
\<close>

type_synonym go_int = "64 word"

definition wrap64 :: "int \<Rightarrow> int" where
  "wrap64 x = (x + 2 ^ 63) mod 2 ^ 64 - 2 ^ 63"

definition quo :: "int \<Rightarrow> int \<Rightarrow> int" where
  "quo a b = wrap64 (sgn a * sgn b * (\<bar>a\<bar> div \<bar>b\<bar>))"

text \<open>\<open>fmt.Sprintf("%d", n)\<close>: the decimal digits, with a sign for negative numbers.\<close>

definition digit_char :: "nat \<Rightarrow> char" where
  "digit_char d = ''0123456789'' ! d"

fun format_nat :: "nat \<Rightarrow> string" where
  "format_nat n =
     (if n < 10 then [digit_char n]
      else format_nat (n div 10) @ [digit_char (n mod 10)])"

declare format_nat.simps [simp del]

definition format_d :: "int \<Rightarrow> string" where
  "format_d i = (if i < 0 then CHR ''-'' # format_nat (nat (- i)) else format_nat (nat i))"

section \<open>Failures\<close>

text \<open>
  What \<open>cmd.CombinedOutput\<close> returns as its error: the exit status of the command when it
  is not zero, the signal that killed it (the context kills the process at the timeout),
  or the reason why it could not be started.
\<close>

datatype cmd_error = ExitStatus nat | SignalKilled | StartFailed string

text \<open>
  Every \<open>fmt.Errorf\<close> of \<open>server.go\<close> is a constructor, in the order of the source, and
  keeps the values that the message is formatted from:
  \<open>page %d exceeds total pages %d\<close> (line 198),
  \<open>working_dir is required for relative paths\<close> (219),
  \<open>failed to read go.mod in working directory: %w\<close> (224),
  \<open>absolute path must match working directory when provided\<close> (237),
  \<open>failed to read go.mod: %w\<close> (242),
  \<open>failed to read %s: %w\<close> (255),
  \<open>no module declaration found in %s\<close> (269),
  \<open>failed to create temp directory: %w\<close> (277),
  \<open>failed to initialize go.mod: %w, output: %s\<close> (287),
  \<open>failed to get package %s: %w, output: %s\<close> (299),
  \<open>package not found: ... Detail: %s\<close> (360),
  \<open>symbol not found: ... Detail: %w\<close> (368),
  \<open>no Go files for current platform; ...: %w\<close> (375) and
  \<open>go doc error: %w, output: %s\<close> (378).
  The two run-time panics that \<open>paginate\<close> can raise (an integer division by zero and
  slice bounds out of range) are constructors as well, so that a fault is a value of the
  model.
\<close>

datatype failure =
    PageExceedsTotal int int
  | WorkingDirRequired
  | GoModInWorkingDir failure
  | AbsoluteMismatch
  | GoModAtPath failure
  | ReadFailed string string
  | NoModuleDeclaration string
  | TempDirFailed string
  | GoModInitFailed cmd_error string
  | GoGetFailed string cmd_error string
  | PackageNotFound string
  | SymbolNotFound cmd_error
  | NoGoFilesForPlatform cmd_error
  | GoDocError cmd_error string
  | PanicDivideByZero
  | PanicSliceBounds

fun is_panic :: "failure \<Rightarrow> bool" where
  "is_panic PanicDivideByZero = True"
| "is_panic PanicSliceBounds = True"
| "is_panic _ = False"

section \<open>The paginator\<close>

text \<open>
  \<open>paginate\<close> (server.go, lines 185 to 212). \<open>select_page\<close> is lines 186 to 207: it
  returns the error of line 198, or panics where the division of line 192 or the slice
  expression of line 207 does, or returns the local variables of the function with the
  selected lines (\<open>lines[start:end]\<close>, which needs \<open>0 \<le> start \<le> end \<le> cap(lines)\<close>, and the
  capacity of the slice that \<open>strings.Split\<close> returns is its length). \<open>render_page\<close> is
  lines 207 to 211: the selected lines joined, under the header. \<open>total_pages\<close> is lines
  192 to 195.
\<close>

record page_info =
  pi_page :: int
  pi_totalPages :: int
  pi_start :: int
  pi_end :: int
  pi_totalLines :: int
  pi_lines :: "string list"

definition total_pages :: "int \<Rightarrow> int \<Rightarrow> int" where
  "total_pages totalLines pageSize =
     (let totalPages = quo (wrap64 (wrap64 (totalLines + pageSize) - 1)) pageSize
      in if totalPages < 1 then 1 else totalPages)"

definition select_page :: "string \<Rightarrow> go_int \<Rightarrow> go_int \<Rightarrow> failure + page_info" where
  "select_page content page0 pageSize0 =
     (let pageSize = sint pageSize0;
          page = (if sint page0 < 1 then 1 else sint page0);
          lines = strings_Split content nl;
          totalLines = int (length lines)
      in if pageSize = 0 then Inl PanicDivideByZero
         else
           let totalPages = total_pages totalLines pageSize
           in if page > totalPages then Inl (PageExceedsTotal page totalPages)
              else
                let start = wrap64 (wrap64 (page - 1) * pageSize);
                    end0 = wrap64 (start + pageSize);
                    end1 = (if end0 > totalLines then totalLines else end0)
                in if 0 \<le> start \<and> start \<le> end1 \<and> end1 \<le> totalLines
                   then Inr \<lparr>pi_page = page, pi_totalPages = totalPages, pi_start = start,
                              pi_end = end1, pi_totalLines = totalLines,
                              pi_lines = take (nat (end1 - start)) (drop (nat start) lines)\<rparr>
                   else Inl PanicSliceBounds)"

definition page_content :: "page_info \<Rightarrow> string" where
  "page_content p = strings_Join (pi_lines p) [nl]"

definition page_metadata :: "page_info \<Rightarrow> string" where
  "page_metadata p =
     ''Page '' @ format_d (pi_page p) @ '' of '' @ format_d (pi_totalPages p)
       @ '' (showing lines '' @ format_d (wrap64 (pi_start p + 1)) @ ''-'' @ format_d (pi_end p)
       @ '' of '' @ format_d (pi_totalLines p) @ '')''"

definition render_page :: "page_info \<Rightarrow> string" where
  "render_page p = page_metadata p @ [nl, nl] @ page_content p"

definition paginate :: "string \<Rightarrow> go_int \<Rightarrow> go_int \<Rightarrow> failure + string" where
  "paginate content page pageSize = map_sum id render_page (select_page content page pageSize)"

section \<open>The location resolver\<close>

text \<open>
  The file system is a function from a path to the outcome of \<open>os.ReadFile\<close>: the text of
  the operating system's error, or the content of the file.
\<close>

type_synonym file_system = "string \<Rightarrow> string + string"

text \<open>\<open>readModuleName\<close> (lines 252 to 270); \<open>find_module\<close> is its loop over the lines.\<close>

fun find_module :: "string list \<Rightarrow> string option" where
  "find_module [] = None"
| "find_module (line # rest) =
     (let line' = strings_TrimSpace line
      in if \<not> strings_HasPrefix line' ''module '' then find_module rest
         else let fields = strings_Fields line'
              in if length fields \<ge> 2 then Some (fields ! 1) else find_module rest)"

definition readModuleName :: "file_system \<Rightarrow> string \<Rightarrow> failure + string" where
  "readModuleName fs goModPath =
     (case fs goModPath of
        Inl err \<Rightarrow> Inl (ReadFailed goModPath err)
      | Inr content \<Rightarrow>
          (case find_module (strings_Split content nl) of
             Some name \<Rightarrow> Inr name
           | None \<Rightarrow> Inl (NoModuleDeclaration goModPath)))"

text \<open>
  \<open>validatePath\<close> (lines 215 to 249) returns the resolved path, the list of
  subdirectories (always \<open>nil\<close>) and the error, as the Go function does.
\<close>

definition validatePath ::
  "file_system \<Rightarrow> string \<Rightarrow> string \<Rightarrow> string \<times> string list option \<times> failure option" where
  "validatePath fs pkgPath workingDir =
     (if strings_HasPrefix pkgPath ''.'' then
        (if workingDir = [] then ([], None, Some WorkingDirRequired)
         else (case readModuleName fs (filepath_Join [workingDir, ''go.mod'']) of
                 Inl err \<Rightarrow> ([], None, Some (GoModInWorkingDir err))
               | Inr moduleName \<Rightarrow>
                   if pkgPath = ''.'' then (moduleName, None, None)
                   else (path_Join [moduleName, strings_TrimPrefix pkgPath ''./''], None, None)))
      else if strings_HasPrefix pkgPath ''/'' \<or> filepath_IsAbs pkgPath then
        (if workingDir \<noteq> [] \<and> pkgPath \<noteq> workingDir then ([], None, Some AbsoluteMismatch)
         else (case readModuleName fs (filepath_Join [pkgPath, ''go.mod'']) of
                 Inl err \<Rightarrow> ([], None, Some (GoModAtPath err))
               | Inr moduleName \<Rightarrow> (moduleName, None, None)))
      else (pkgPath, None, None))"






section \<open>The cache and the invocation of the extractor\<close>

text \<open>
  Times are readings of the process's monotonic clock in nanoseconds; \<open>time.Since\<close> and
  \<open>Before\<close> compare such readings. (A \<open>time.Duration\<close> saturates at 64 bits, far beyond
  \<open>cacheTTL\<close>, so the comparison with \<open>cacheTTL\<close> is the one of the integers.)
\<close>

type_synonym time = int

definition cacheTTL :: int where
  "cacheTTL = 5 * 60 * 1000000000"

definition maxCacheSize :: nat where
  "maxCacheSize = 500"

record cachedDoc =
  content :: string
  timestamp :: time

text \<open>
  The map \<open>gs.cache\<close> is an association list with one pair for each key; the order of the
  list is the order in which \<open>range\<close> visits the map, which Go leaves open: what is proved
  for every list holds for every order.
\<close>

type_synonym cache = "(string \<times> cachedDoc) list"

definition cacheKey :: "string \<Rightarrow> string list \<Rightarrow> string" where
  "cacheKey workingDir args = workingDir @ ''|'' @ strings_Join args ''|''"

text \<open>The first critical section of \<open>runGoDoc\<close> (lines 310 to 319): the content on a hit,
  and the cache, without the entry when it had expired.\<close>

definition lookup :: "cache \<Rightarrow> string \<Rightarrow> time \<Rightarrow> string option \<times> cache" where
  "lookup c key now =
     (case map_of c key of
        Some doc \<Rightarrow>
          if now - timestamp doc < cacheTTL then (Some (content doc), c)
          else (None, AList.delete key c)
      | None \<Rightarrow> (None, c))"

text \<open>The eviction scan (lines 339 to 346), with the loop's variables \<open>oldestKey\<close> and
  \<open>oldestTime\<close> as accumulators.\<close>

fun oldest_scan :: "cache \<Rightarrow> string \<Rightarrow> time \<Rightarrow> string \<times> time" where
  "oldest_scan [] oldestKey oldestTime = (oldestKey, oldestTime)"
| "oldest_scan ((k, v) # rest) oldestKey oldestTime =
     (if oldestKey = [] \<or> timestamp v < oldestTime
      then oldest_scan rest k (timestamp v)
      else oldest_scan rest oldestKey oldestTime)"

definition evict :: "cache \<Rightarrow> cache" where
  "evict c =
     (if length c \<ge> maxCacheSize
      then AList.delete (fst (oldest_scan c [] 0)) c
      else c)"

text \<open>The second critical section (lines 336 to 350).\<close>

definition store :: "cache \<Rightarrow> string \<Rightarrow> string \<Rightarrow> time \<Rightarrow> cache" where
  "store c key doc now = AList.update key \<lparr>content = doc, timestamp = now\<rparr> (evict c)"

text \<open>\<open>formatGoDocError\<close> (lines 357 to 379).\<close>

definition formatGoDocError :: "string \<Rightarrow> cmd_error \<Rightarrow> failure" where
  "formatGoDocError output err =
     (if strings_Contains output ''no such package'' \<or> strings_Contains output ''is not in std''
      then PackageNotFound output
      else if strings_Contains output ''no such symbol'' then SymbolNotFound err
      else if strings_Contains output ''build constraints exclude all Go files''
      then NoGoFilesForPlatform err
      else GoDocError err output)"

text \<open>
  What one call meets outside the program: \<open>run_command dir argv\<close> is the combined output
  and the error of running \<open>argv\<close> in \<open>dir\<close> under the 30 second timeout (a timeout kills
  the process, which is an error as well); the two clock readings are those of line 312
  and line 349; for the handler, the files that \<open>os.ReadFile\<close> reads, the paths that
  \<open>os.Stat\<close> reports as directories, and the outcome of \<open>os.MkdirTemp\<close> (the text of the
  error, or the new directory).
\<close>

record env =
  run_command :: "string \<Rightarrow> string list \<Rightarrow> string \<times> cmd_error option"
  now_lookup :: time
  now_store :: time
  read_file :: file_system
  is_directory :: "string \<Rightarrow> bool"
  mkdir_temp :: "string + string"

text \<open>
  \<open>runGoDoc\<close> (lines 307 to 354) returns its result, the cache it leaves and the list of
  the external commands it has run.
\<close>

definition runGoDoc ::
  "env \<Rightarrow> cache \<Rightarrow> string \<Rightarrow> string list
     \<Rightarrow> (failure + string) \<times> cache \<times> (string \<times> string list) list" where
  "runGoDoc e c workingDir args =
     (let key = cacheKey workingDir args
      in case lookup c key (now_lookup e) of
           (Some doc, c1) \<Rightarrow> (Inr doc, c1, [])
         | (None, c1) \<Rightarrow>
             (let argv = ''go'' # ''doc'' # args
              in case run_command e workingDir argv of
                   (out, Some err) \<Rightarrow> (Inl (formatGoDocError out err), c1, [(workingDir, argv)])
                 | (out, None) \<Rightarrow>
                     (Inr out, store c1 key out (now_store e), [(workingDir, argv)])))"

text \<open>The states of the cache that the server reaches: it starts empty
  (\<open>newGodocServer\<close>), and only the two critical sections of \<open>runGoDoc\<close> change it.\<close>

inductive reachable :: "cache \<Rightarrow> bool" where
  reachable_new: "reachable []"
| reachable_lookup: "reachable c \<Longrightarrow> reachable (snd (lookup c (cacheKey workingDir args) now))"
| reachable_store: "reachable c \<Longrightarrow> reachable (store c (cacheKey workingDir args) doc now)"

text \<open>
  The keys of a Go map are distinct, and no key of the cache is the empty string (every
  key that \<open>runGoDoc\<close> stores contains a bar). The scan of lines 341 to 346 relies on the
  second: it takes \<open>oldestKey == ""\<close> for "no entry seen yet".
\<close>

definition cache_inv :: "cache \<Rightarrow> bool" where
  "cache_inv c = (distinct (map fst c) \<and> [] \<notin> fst ` set c)"

text \<open>Sequences of critical sections, as overlapping calls of \<open>runGoDoc\<close> produce them
  under the mutex: each is the first section (with the key and the clock of its call) or
  the second (with the key, the output and the clock).\<close>

datatype cache_op = Lookup string time | Store string string time

fun apply_op :: "cache \<Rightarrow> cache_op \<Rightarrow> cache" where
  "apply_op c (Lookup key now) = snd (lookup c key now)"
| "apply_op c (Store key doc now) = store c key doc now"

definition run_ops :: "cache \<Rightarrow> cache_op list \<Rightarrow> cache" where
  "run_ops c ops = foldl apply_op c ops"

section \<open>The request handler\<close>

definition allowedFlags :: "string \<Rightarrow> bool" where
  "allowedFlags f = (f \<in> set [''-all'', ''-src'', ''-u'', ''-short'', ''-c''])"

definition isStdLib :: "string \<Rightarrow> bool" where
  "isStdLib pkg = (\<not> strings_Contains (takeWhile (\<lambda>c. c \<noteq> CHR ''/'') pkg) ''.'')"

text \<open>\<open>createTempProject\<close> (lines 274 to 304).\<close>

definition createTempProject :: "env \<Rightarrow> string \<Rightarrow> failure + string" where
  "createTempProject e importPath =
     (case mkdir_temp e of
        Inl err \<Rightarrow> Inl (TempDirFailed err)
      | Inr tempDir \<Rightarrow>
          (case run_command e tempDir [''go'', ''mod'', ''init'', ''godoc-temp''] of
             (out, Some err) \<Rightarrow> Inl (GoModInitFailed err out)
           | (out, None) \<Rightarrow>
               if \<not> isStdLib importPath then
                 (case run_command e tempDir [''go'', ''get'', importPath] of
                    (out, Some err) \<Rightarrow> Inl (GoGetFailed importPath err out)
                  | (out, None) \<Rightarrow> Inr tempDir)
               else Inr tempDir))"

text \<open>
  The arguments of a request as the handler reads them: \<open>None\<close> where \<open>GetString\<close>,
  \<open>GetInt\<close> or \<open>GetStringSlice\<close> falls back to its default. The handler answers with a
  text or with an error, whose message is built from the value kept here; a panic of
  \<open>paginate\<close> leaves the handler.
\<close>

record request =
  req_path :: "string option"
  req_target :: "string option"
  req_working_dir :: "string option"
  req_cmd_flags :: "string list option"
  req_page :: "go_int option"
  req_page_size :: "go_int option"

datatype tool_error =
    PathRequired
  | InvalidWorkingDir string
  | UnsupportedFlag string
  | TempProjectFailed failure
  | Failed failure

datatype tool_result = ToolResultText string | ToolResultError tool_error | HandlerPanic failure

definition get_default :: "'a option \<Rightarrow> 'a \<Rightarrow> 'a" where
  "get_default v d = (case v of None \<Rightarrow> d | Some x \<Rightarrow> x)"

text \<open>\<open>handleGetDoc\<close> (lines 110 to 182).\<close>

definition handleGetDoc :: "env \<Rightarrow> cache \<Rightarrow> request \<Rightarrow> tool_result \<times> cache" where
  "handleGetDoc e c request =
     (case req_path request of
        None \<Rightarrow> (ToolResultError PathRequired, c)
      | Some pkgPath \<Rightarrow>
          (let target = get_default (req_target request) [];
               workingDir = get_default (req_working_dir request) [];
               page = get_default (req_page request) 1;
               pageSize = get_default (req_page_size request) 1000;
               cmdFlags = get_default (req_cmd_flags request) []
           in if workingDir \<noteq> [] \<and> \<not> is_directory e workingDir
              then (ToolResultError (InvalidWorkingDir workingDir), c)
              else
                (case find (\<lambda>f. \<not> allowedFlags f) cmdFlags of
                   Some f \<Rightarrow> (ToolResultError (UnsupportedFlag f), c)
                 | None \<Rightarrow>
                     (case validatePath (read_file e) pkgPath workingDir of
                        (resolvedPath, Some subDirs, Some err) \<Rightarrow>
                          (ToolResultText (''No Go files found in '' @ pkgPath
                             @ '', but found Go packages in:'' @ [nl] @ strings_Join subDirs [nl]), c)
                      | (resolvedPath, None, Some err) \<Rightarrow> (ToolResultError (Failed err), c)
                      | (resolvedPath, subDirs, None) \<Rightarrow>
                          (case (if workingDir = [] then createTempProject e resolvedPath
                                 else Inr workingDir) of
                             Inl err \<Rightarrow> (ToolResultError (TempProjectFailed err), c)
                           | Inr workingDir' \<Rightarrow>
                               (let args = cmdFlags @ [resolvedPath]
                                      @ (if target \<noteq> [] then [target] else [])
                                in case runGoDoc e c workingDir' args of
                                     (Inl err, c', cmds) \<Rightarrow> (ToolResultError (Failed err), c')
                                   | (Inr doc, c', cmds) \<Rightarrow>
                                       (case paginate doc page pageSize of
                                          Inl err \<Rightarrow>
                                            if is_panic err then (HandlerPanic err, c')
                                            else (ToolResultError (Failed err), c')
                                        | Inr result \<Rightarrow> (ToolResultText result, c'))))))))"

section \<open>Test data\<close>

text \<open>A text of three lines, for the examples of the paginator.\<close>

definition abc_lines :: string where
  "abc_lines = ''a'' @ [nl] @ ''b'' @ [nl] @ ''c''"

text \<open>A request for the documentation of \<open>io\<close> in the working directory \<open>/w\<close> with
  \<open>page_size\<close> 0, and an outside world in which \<open>/w\<close> is a directory and every command
  succeeds with the three lines above as its output.\<close>

definition test_env :: env where
  "test_env = \<lparr>run_command = (\<lambda>dir argv. (abc_lines, None)), now_lookup = 0, now_store = 1,
     read_file = (\<lambda>p. Inl ''no such file or directory''), is_directory = (\<lambda>p. True),
     mkdir_temp = Inr ''/tmp/godoc-mcp-1''\<rparr>"

definition test_request :: request where
  "test_request = \<lparr>req_path = Some ''io'', req_target = None, req_working_dir = Some ''/w'',
     req_cmd_flags = None, req_page = None, req_page_size = Some 0\<rparr>"

text \<open>The full cache of \<open>TestCacheEviction\<close>: the keys are \<open>x\<close>, \<open>xx\<close>, ... and entry \<open>i\<close> is
  \<open>maxCacheSize - i\<close> seconds old at time 0.\<close>

definition test_cache :: cache where
  "test_cache = map (\<lambda>i. (replicate (Suc i) CHR ''x'',
       \<lparr>content = ''content'', timestamp = (int i - int maxCacheSize) * 1000000000\<rparr>))
     [0..<maxCacheSize]"

text \<open>A file system whose only file is \<open>/w/go.mod\<close>, declaring the module
  \<open>example.com/app\<close>.\<close>

definition test_fs :: file_system where
  "test_fs p =
     (if p = ''/w/go.mod'' then Inr (''module example.com/app'' @ [nl, nl] @ ''go 1.21'' @ [nl])
      else Inl ''no such file or directory'')"



text \<open>The same world, but every command fails with exit status 1 and reports a
  missing package; and the world one nanosecond after the insertion of \<open>test_env\<close>.\<close>

definition failing_env :: env where
  "failing_env = test_env\<lparr>run_command := (\<lambda>dir argv. (''doc: no such package'', Some (ExitStatus 1)))\<rparr>"

definition later_env :: env where
  "later_env = failing_env\<lparr>now_lookup := 2, now_store := 3\<rparr>"

text \<open>
  Two overlapping calls for one key. The keys \<open>key_x 0\<close>, \<open>key_x 1\<close>, ... are those of the
  queries for \<open>x\<close>, \<open>xx\<close>, ... in the directory \<open>/w\<close>, and \<open>filled n\<close> is the cache after the
  insertion of the first \<open>n\<close> of them at the times 0, 1, ... In \<open>overlap_ops\<close>, 499 keys are
  inserted; then two calls for the next key both run their first critical section, and the
  first of them runs its second one.
\<close>

definition key_x :: "nat \<Rightarrow> string" where
  "key_x i = cacheKey ''/w'' [replicate (Suc i) CHR ''x'']"

definition filled :: "nat \<Rightarrow> cache" where
  "filled n = map (\<lambda>i. (key_x i, \<lparr>content = ''content'', timestamp = int i\<rparr>)) [0..<n]"

definition overlap_ops :: "cache_op list" where
  "overlap_ops =
     map (\<lambda>i. Store (key_x i) ''content'' (int i)) [0..<maxCacheSize - 1]
     @ [Lookup (key_x (maxCacheSize - 1)) (int maxCacheSize - 1),
        Lookup (key_x (maxCacheSize - 1)) (int maxCacheSize - 1),
        Store (key_x (maxCacheSize - 1)) ''content'' (int maxCacheSize - 1)]"

section \<open>Properties\<close>

subsection \<open>Arithmetic of the paginator\<close>

lemma wrap64_id: "- (2 ^ 63) \<le> x \<Longrightarrow> x < 2 ^ 63 \<Longrightarrow> wrap64 x = x"
  by (simp add: wrap64_def)

lemma wrap64_over: "2 ^ 63 \<le> x \<Longrightarrow> x < 2 ^ 63 + 2 ^ 64 \<Longrightarrow> wrap64 x = x - 2 ^ 64"
proof -
  assume a: "2 ^ 63 \<le> x" "x < 2 ^ 63 + 2 ^ 64"
  have "(x + 2 ^ 63) mod 2 ^ 64 = (x + 2 ^ 63 - 2 ^ 64) mod (2 ^ 64 :: int)"
    by (rule minus_mod_self2 [symmetric])
  also have "\<dots> = x + 2 ^ 63 - 2 ^ 64" using a by (intro mod_pos_pos_trivial) auto
  finally show ?thesis by (simp add: wrap64_def)
qed

lemma wrap64_under: "- (2 ^ 63) - 2 ^ 64 \<le> x \<Longrightarrow> x < - (2 ^ 63) \<Longrightarrow> wrap64 x = x + 2 ^ 64"
proof -
  assume a: "- (2 ^ 63) - 2 ^ 64 \<le> x" "x < - (2 ^ 63)"
  have "(x + 2 ^ 63) mod 2 ^ 64 = ((x + 2 ^ 63) + 2 ^ 64) mod (2 ^ 64 :: int)"
    by (rule mod_add_self2 [symmetric])
  also have "\<dots> = x + 2 ^ 63 + 2 ^ 64" using a by (intro mod_pos_pos_trivial) auto
  finally show ?thesis by (simp add: wrap64_def)
qed

lemma sint64_range: "- (2 ^ 63) \<le> sint (w :: 64 word) \<and> sint w < 2 ^ 63"
  using sint_ge [of w] sint_lt [of w] by simp

lemma sint64_of_nat: "n < 2 ^ 63 \<Longrightarrow> sint (word_of_nat n :: 64 word) = int n"
proof -
  assume "n < 2 ^ 63"
  then have "int n < 2 ^ 63" by (metis of_nat_less_iff of_nat_numeral of_nat_power)
  then have "signed_take_bit 63 (int n) = int n" by (intro signed_take_bit_int_eq_self) auto
  then show ?thesis by (simp add: signed_of_nat)
qed

lemma int_div_bounds: "0 \<le> (a::int) \<Longrightarrow> 0 < b \<Longrightarrow> 0 \<le> a div b \<and> a div b \<le> a"
  using zdiv_mono2 [of a 1 b] by (simp add: pos_imp_zdiv_nonneg_iff)

lemma quo_pos: "0 \<le> a \<Longrightarrow> a < 2 ^ 63 \<Longrightarrow> 0 < b \<Longrightarrow> quo a b = a div b"
proof -
  assume a: "0 \<le> a" "a < 2 ^ 63" "0 < b"
  have "0 \<le> a div b \<and> a div b \<le> a" using a by (intro int_div_bounds)
  then have "wrap64 (a div b) = a div b" using a by (intro wrap64_id) auto
  moreover have "sgn a * sgn b * (\<bar>a\<bar> div \<bar>b\<bar>) = a div b"
    using a by (cases "a = 0") (simp_all add: sgn_if)
  ultimately show ?thesis unfolding quo_def by simp
qed

lemma quo_neg_pos: "a < 0 \<Longrightarrow> - (2 ^ 63) \<le> a \<Longrightarrow> 0 < b \<Longrightarrow> quo a b \<le> 0"
proof -
  assume a: "a < 0" "- (2 ^ 63) \<le> a" "0 < b"
  have d: "0 \<le> \<bar>a\<bar> div \<bar>b\<bar> \<and> \<bar>a\<bar> div \<bar>b\<bar> \<le> \<bar>a\<bar>" using a by (intro int_div_bounds) auto
  have s: "sgn a * sgn b * (\<bar>a\<bar> div \<bar>b\<bar>) = - (\<bar>a\<bar> div \<bar>b\<bar>)" using a by (simp add: sgn_if)
  have "wrap64 (- (\<bar>a\<bar> div \<bar>b\<bar>)) = - (\<bar>a\<bar> div \<bar>b\<bar>)"
    using a d by (intro wrap64_id) auto
  then show ?thesis using d s by (simp add: quo_def)
qed

lemma ceil_div_ge1: "1 \<le> (p::int) \<Longrightarrow> 1 \<le> l \<Longrightarrow> 1 \<le> (l + p - 1) div p"
proof -
  assume a: "1 \<le> p" "1 \<le> l"
  have "(l + p - 1) div p = (l - 1 + p) div p" by (simp add: algebra_simps)
  also have "\<dots> = (l - 1) div p + 1" using a by simp
  finally show ?thesis using a by (simp add: pos_imp_zdiv_nonneg_iff)
qed

lemma ceil_div_le: "1 \<le> (p::int) \<Longrightarrow> 1 \<le> l \<Longrightarrow> l \<le> p \<Longrightarrow> (l + p - 1) div p = 1"
proof -
  assume a: "1 \<le> p" "1 \<le> l" "l \<le> p"
  have "(l + p - 1) div p = (l - 1 + p) div p" by (simp add: algebra_simps)
  also have "\<dots> = (l - 1) div p + 1" using a by simp
  also have "(l - 1) div p = 0" using a by (intro div_pos_pos_trivial) auto
  finally show ?thesis by simp
qed

lemma total_pages_eq:
  assumes "1 \<le> p" "p < 2 ^ 63" "1 \<le> l" "l \<le> 2 ^ 62"
  shows "total_pages l p = (l + p - 1) div p"
proof (cases "l + p - 1 < 2 ^ 63")
  case True
  have "wrap64 (wrap64 (l + p) - 1) = l + p - 1"
  proof (cases "l + p < 2 ^ 63")
    case True
    then show ?thesis using assms by (simp add: wrap64_id)
  next
    case False
    with True have e: "l + p = 2 ^ 63" by simp
    then have "wrap64 (l + p) = - (2 ^ 63)" by (simp add: wrap64_over)
    then show ?thesis using e by (simp add: wrap64_under)
  qed
  moreover have "1 \<le> (l + p - 1) div p"
    using assms by (intro ceil_div_ge1)
  ultimately show ?thesis using assms True by (simp add: total_pages_def quo_pos)
next
  case False
  then have o: "2 ^ 63 \<le> l + p" "2 ^ 63 \<le> l + p - 1" by simp_all
  have w1: "wrap64 (l + p) = l + p - 2 ^ 64" using o assms by (intro wrap64_over) auto
  define n where "n = l + p - 2 ^ 64 - 1"
  have n: "n < 0" "- (2 ^ 63) \<le> n" using o assms by (auto simp: n_def)
  have w2: "wrap64 (wrap64 (l + p) - 1) = n"
    unfolding w1 using n wrap64_id [of n] by (simp add: n_def)
  have "quo n p \<le> 0" using n assms by (intro quo_neg_pos) auto
  then have "total_pages l p = 1" unfolding total_pages_def w2 by (simp add: Let_def)
  moreover have "l \<le> p" using o assms by simp
  then have "(l + p - 1) div p = 1"
    using assms by (intro ceil_div_le)
  ultimately show ?thesis by simp
qed

lemma ceil_div_cases:
  assumes "0 < (p::int)"
  shows "(l + p - 1) div p = (if l mod p = 0 then l div p else l div p + 1)"
proof -
  have "l + p - 1 = p * (l div p) + (l mod p + p - 1)" by (simp add: algebra_simps)
  then have e: "(l + p - 1) div p = l div p + (l mod p + p - 1) div p"
    using assms by (metis div_mult_self4 less_irrefl)
  show ?thesis
  proof (cases "l mod p = 0")
    case True
    then have "(l mod p + p - 1) div p = 0" using assms by (simp add: div_pos_pos_trivial)
    with e True show ?thesis by simp
  next
    case False
    have r: "0 \<le> l mod p" "l mod p < p" using assms by simp_all
    have "(l mod p + p - 1) div p = (l mod p - 1 + p) div p" by (simp add: algebra_simps)
    also have "\<dots> = (l mod p - 1) div p + 1" using assms by simp
    also have "(l mod p - 1) div p = 0" using r False by (intro div_pos_pos_trivial) auto
    finally show ?thesis using e False by simp
  qed
qed

lemma ceil_div_ceiling:
  "0 < (p::int) \<Longrightarrow> (l + p - 1) div p = \<lceil>real_of_int l / real_of_int p\<rceil>"
  by (simp add: ceil_div_cases ceiling_divide_eq_div zdiv_zminus1_eq_if)

lemma ceil_div_mult_less: "0 < (p::int) \<Longrightarrow> ((l + p - 1) div p - 1) * p < l"
proof -
  assume a: "0 < p"
  have "l + p - 1 = (l + p - 1) div p * p + (l + p - 1) mod p" by simp
  moreover have "0 \<le> (l + p - 1) mod p" using a by simp
  ultimately have "(l + p - 1) div p * p \<le> l + p - 1" by linarith
  then show ?thesis by (simp add: algebra_simps)
qed

lemma ceil_div_mult_ge: "0 < (p::int) \<Longrightarrow> l \<le> (l + p - 1) div p * p"
proof -
  assume a: "0 < p"
  have "l + p - 1 = (l + p - 1) div p * p + (l + p - 1) mod p" by simp
  moreover have "(l + p - 1) mod p < p" using a by simp
  ultimately show ?thesis by linarith
qed

subsection \<open>Splitting and joining\<close>

lemma Split_nonempty: "strings_Split s c \<noteq> []"
  by (induction s) (auto split: list.splits)

lemma Split_length: "length (strings_Split s c) \<le> Suc (length s)"
  by (induction s) (auto split: list.splits)

lemma Join_Split: "strings_Join (strings_Split s c) [c] = s"
proof (induction s)
  case Nil
  then show ?case by simp
next
  case (Cons a s)
  obtain l ls where e: "strings_Split s c = l # ls"
    using Split_nonempty [of s c] by (cases "strings_Split s c") auto
  show ?case
  proof (cases "a = c")
    case True
    then show ?thesis using Cons e by simp
  next
    case False
    then show ?thesis using Cons e by (cases ls) simp_all
  qed
qed

subsection \<open>The page that \<open>paginate\<close> selects\<close>

lemma select_page_ok:
  fixes content :: string and page pageSize :: go_int
  assumes ps: "1 \<le> sint pageSize" and len: "length content < 2 ^ 62"
  shows "select_page content page pageSize =
    (let P = sint pageSize; pg = max 1 (sint page); lines = strings_Split content nl;
         L = int (length lines); T = (L + P - 1) div P
     in if pg > T then Inl (PageExceedsTotal pg T)
        else Inr \<lparr>pi_page = pg, pi_totalPages = T, pi_start = (pg - 1) * P,
                  pi_end = min L (pg * P), pi_totalLines = L,
                  pi_lines = take (nat P) (drop (nat ((pg - 1) * P)) lines)\<rparr>)"
proof -
  define P where "P = sint pageSize"
  define pg where "pg = max 1 (sint page)"
  define lines where "lines = strings_Split content nl"
  define L where "L = int (length lines)"
  define T where "T = (L + P - 1) div P"
  have P: "1 \<le> P" "P < 2 ^ 63" using ps sint64_range [of pageSize] by (simp_all add: P_def)
  have pg: "1 \<le> pg" "pg < 2 ^ 63" using sint64_range [of page] by (simp_all add: pg_def)
  have L: "1 \<le> L" "L \<le> 2 ^ 62"
    using Split_nonempty [of content nl] Split_length [of content nl] len
    by (cases lines; simp add: L_def lines_def)+
  have T: "total_pages L P = T" unfolding T_def using P L by (intro total_pages_eq)
  have pgc: "(if sint page < 1 then 1 else sint page) = pg" by (simp add: pg_def max_def)
  show ?thesis
  proof (cases "pg > T")
    case True
    then show ?thesis
      using P unfolding select_page_def Let_def pgc
      by (simp add: P_def [symmetric] lines_def [symmetric] L_def [symmetric] T
          T_def [symmetric] pg_def [symmetric])
  next
    case False
    have "(pg - 1) * P \<le> (T - 1) * P" using False P by (intro mult_right_mono) auto
    moreover have "(T - 1) * P < L" unfolding T_def using P by (intro ceil_div_mult_less) auto
    ultimately have st: "(pg - 1) * P < L" by simp
    have st0: "0 \<le> (pg - 1) * P" using pg P by simp
    have w1: "wrap64 (pg - 1) = pg - 1" using pg by (intro wrap64_id) auto
    have w2: "wrap64 ((pg - 1) * P) = (pg - 1) * P" using st st0 L by (intro wrap64_id) auto
    have "(pg - 1) * P + P < 2 ^ 63"
    proof (cases "pg = 1")
      case True
      then show ?thesis using P by simp
    next
      case False
      then have "2 \<le> T" using \<open>\<not> pg > T\<close> pg by simp
      then have "P < L" using ceil_div_le [of P L] P L by (cases "L \<le> P") (auto simp: T_def)
      then show ?thesis using st L by simp
    qed
    then have w3': "wrap64 ((pg - 1) * P + P) = (pg - 1) * P + P"
      using st0 P by (intro wrap64_id) auto
    have e: "(pg - 1) * P + P = pg * P" by (simp add: algebra_simps)
    have w3: "wrap64 (pg * P) = pg * P" using w3' unfolding e .
    define en where "en = min L (pg * P)"
    have c: "(if pg * P > L then L else pg * P) = en" by (simp add: en_def min_def)
    have rng: "0 \<le> (pg - 1) * P \<and> (pg - 1) * P \<le> en \<and> en \<le> L"
      using st st0 P e by (simp add: en_def min_def)
    have tk: "take (nat (en - (pg - 1) * P)) (drop (nat ((pg - 1) * P)) lines)
        = take (nat P) (drop (nat ((pg - 1) * P)) lines)"
    proof (cases "pg * P \<le> L")
      case True
      then show ?thesis by (simp add: en_def min_def algebra_simps)
    next
      case False
      then have "length (drop (nat ((pg - 1) * P)) lines) \<le> nat (en - (pg - 1) * P)"
        using st0 by (simp add: en_def min_def L_def)
      moreover have "length (drop (nat ((pg - 1) * P)) lines) \<le> nat P"
        using False st0 e by (simp add: L_def)
      ultimately show ?thesis by simp
    qed
    have P0: "P \<noteq> 0" using P by simp
    show ?thesis
      unfolding select_page_def Let_def pgc
      apply (simp only: P_def [symmetric] lines_def [symmetric] L_def [symmetric] T
          T_def [symmetric] pg_def [symmetric] w1 w2 w3 e c)
      apply (simp only: P0 False rng tk if_False if_True simp_thms)
      apply (simp only: en_def)
      done
  qed
qed

lemma concat_chunks:
  "length xs \<le> n * p \<Longrightarrow> concat (map (\<lambda>k. take p (drop (k * p) xs)) [0..<n]) = xs"
proof (induction n arbitrary: xs)
  case 0
  then show ?case by simp
next
  case (Suc n)
  have "[0..<Suc n] = 0 # map Suc [0..<n]" by (simp add: upt_conv_Cons map_Suc_upt del: upt_Suc)
  then have "concat (map (\<lambda>k. take p (drop (k * p) xs)) [0..<Suc n])
      = take p xs @ concat (map (\<lambda>k. take p (drop (Suc k * p) xs)) [0..<n])"
    by (simp add: comp_def del: upt_Suc)
  also have "(\<lambda>k. take p (drop (Suc k * p) xs)) = (\<lambda>k. take p (drop (k * p) (drop p xs)))"
    by (simp add: add.commute)
  also have "concat (map (\<lambda>k. take p (drop (k * p) (drop p xs))) [0..<n]) = drop p xs"
    using Suc.prems by (intro Suc.IH) simp
  finally show ?case by simp
qed

lemma Join_append:
  "xs \<noteq> [] \<Longrightarrow> ys \<noteq> [] \<Longrightarrow> strings_Join (xs @ ys) sep = strings_Join xs sep @ sep @ strings_Join ys sep"
proof (induction xs sep rule: strings_Join.induct)
  case (1 sep)
  then show ?case by simp
next
  case (2 x sep)
  then show ?case by (cases ys) simp_all
next
  case (3 x y ys sep)
  then show ?case by simp
qed

lemma Join_concat:
  "\<forall>c \<in> set chunks. c \<noteq> [] \<Longrightarrow>
     strings_Join (map (\<lambda>c. strings_Join c sep) chunks) sep = strings_Join (concat chunks) sep"
proof (induction chunks)
  case Nil
  then show ?case by simp
next
  case (Cons c cs)
  show ?case
  proof (cases cs)
    case Nil
    then show ?thesis by simp
  next
    case (Cons d ds)
    then have ne: "concat cs \<noteq> []" using Cons.prems \<open>\<forall>c\<in>set (c # cs). c \<noteq> []\<close> by auto
    have "strings_Join (map (\<lambda>c. strings_Join c sep) (c # cs)) sep
        = strings_Join c sep @ sep @ strings_Join (map (\<lambda>c. strings_Join c sep) cs) sep"
      using Cons by simp
    also have "\<dots> = strings_Join c sep @ sep @ strings_Join (concat cs) sep"
      using Cons.IH Cons.prems by simp
    also have "\<dots> = strings_Join (c @ concat cs) sep"
      using ne Cons.prems by (simp add: Join_append)
    finally show ?thesis by simp
  qed
qed

subsection \<open>Errors of the paginator\<close>

lemma paginate_no_error_iff:
  fixes content :: string
  shows "paginate content page pageSize = Inl e \<longleftrightarrow> select_page content page pageSize = Inl e"
  by (cases "select_page content page pageSize") (simp_all add: paginate_def)

lemma paginate_Inr_iff:
  fixes content :: string
  shows "paginate content page pageSize = Inr r \<longleftrightarrow>
     (\<exists>p. select_page content page pageSize = Inr p \<and> r = render_page p)"
  by (cases "select_page content page pageSize") (auto simp: paginate_def)

lemma lines_bounds:
  fixes content :: string
  assumes "length content < 2 ^ 62"
  shows "1 \<le> int (length (strings_Split content nl)) \<and> int (length (strings_Split content nl)) \<le> 2 ^ 62"
  using Split_nonempty [of content nl] Split_length [of content nl] assms
  by (cases "strings_Split content nl") simp_all

lemma total_is_ceiling:
  assumes "1 \<le> P" "1 \<le> L"
  shows "(L + P - 1) div P = max 1 \<lceil>real_of_int L / real_of_int P\<rceil>"
proof -
  have "1 \<le> (L + P - 1) div P" using assms by (intro ceil_div_ge1)
  moreover have "(L + P - 1) div P = \<lceil>real_of_int L / real_of_int P\<rceil>"
    using assms by (intro ceil_div_ceiling) auto
  ultimately show ?thesis by simp
qed

text \<open>
  Claim C10. For the empty content and every page size of at least 1, page 1 is returned
  and not refused: the empty string is one (empty) line, so the header reports 1 line in
  all and 1 page in all.
\<close>

theorem paginate_empty_content:
  assumes "1 \<le> sint pageSize"
  shows "paginate [] 1 pageSize = Inr (''Page 1 of 1 (showing lines 1-1 of 1)'' @ [nl, nl])
    \<and> (\<exists>p. select_page [] 1 pageSize = Inr p \<and> pi_totalLines p = 1 \<and> pi_totalPages p = 1)"
proof -
  have s: "select_page [] 1 pageSize =
      Inr \<lparr>pi_page = 1, pi_totalPages = 1, pi_start = 0, pi_end = 1, pi_totalLines = 1,
           pi_lines = [[]]\<rparr>"
    using select_page_ok [of pageSize "[]" 1] assms
    by (simp add: Let_def ceil_div_le min_def)
  have "render_page \<lparr>pi_page = 1, pi_totalPages = 1, pi_start = 0, pi_end = 1, pi_totalLines = 1,
           pi_lines = [[]]\<rparr> = ''Page 1 of 1 (showing lines 1-1 of 1)'' @ [nl, nl]"
    by (simp add: render_page_def page_metadata_def page_content_def format_d_def
        format_nat.simps digit_char_def wrap64_def)
  then show ?thesis using s by (simp add: paginate_def)
qed

theorem paginate_empty_content_witness:
  "paginate [] 1 1000 = Inr (''Page 1 of 1 (showing lines 1-1 of 1)'' @ [nl, nl])
    \<and> (\<exists>p. select_page [] 1 1000 = Inr p \<and> pi_totalLines p = 1 \<and> pi_totalPages p = 1)"
  using paginate_empty_content [of 1000] by simp

text \<open>
  Claim C6. For a page size of at least 1, \<open>paginate\<close> returns an error exactly when the
  page number, after values below 1 are raised to 1, exceeds the total number of pages,
  which is the ceiling of the number of lines divided by the page size and at least 1; the
  error is then the one of line 198. A page number below 1 is never refused, and page 0
  gives what page 1 gives, for every content and every page size \<open>n\<close>. The length bound holds
  for every string a 64-bit machine can hold.
\<close>

theorem paginate_error_iff:
  fixes content :: string
  assumes "1 \<le> sint pageSize" and "length content < 2 ^ 62"
  shows "(let total = max 1 \<lceil>real_of_int (int (length (strings_Split content nl))) / real_of_int (sint pageSize)\<rceil>;
              clamped = (if sint page < 1 then 1 else sint page)
          in ((\<exists>e. paginate content page pageSize = Inl e) \<longleftrightarrow> clamped > total)
           \<and> (clamped > total \<longrightarrow> paginate content page pageSize = Inl (PageExceedsTotal clamped total))
           \<and> (sint page < 1 \<longrightarrow> (\<exists>r. paginate content page pageSize = Inr r)))
         \<and> paginate content 0 n = paginate content 1 n"
proof -
  define P where "P = sint pageSize"
  define L where "L = int (length (strings_Split content nl))"
  define T where "T = (L + P - 1) div P"
  define pg where "pg = max 1 (sint page)"
  have L: "1 \<le> L" "L \<le> 2 ^ 62" using lines_bounds [OF assms(2)] by (simp_all add: L_def)
  have P: "1 \<le> P" using assms by (simp add: P_def)
  have T: "T = max 1 \<lceil>real_of_int L / real_of_int P\<rceil>" unfolding T_def using P L by (intro total_is_ceiling)
  have T1: "1 \<le> T" using T by simp
  have pgc: "(if sint page < 1 then 1 else sint page) = pg" by (simp add: pg_def max_def)
  have sel: "select_page content page pageSize =
     (if pg > T then Inl (PageExceedsTotal pg T)
        else Inr \<lparr>pi_page = pg, pi_totalPages = T, pi_start = (pg - 1) * P,
                  pi_end = min L (pg * P), pi_totalLines = L,
                  pi_lines = take (nat P) (drop (nat ((pg - 1) * P)) (strings_Split content nl))\<rparr>)"
    using select_page_ok [OF assms, of page]
    by (simp only: Let_def P_def [symmetric] L_def [symmetric] T_def [symmetric] pg_def [symmetric])
  have a: "(\<exists>e. paginate content page pageSize = Inl e) \<longleftrightarrow> pg > T"
    by (simp add: paginate_def sel)
  have b: "pg > T \<longrightarrow> paginate content page pageSize = Inl (PageExceedsTotal pg T)"
    by (simp add: paginate_def sel)
  have c: "sint page < 1 \<longrightarrow> (\<exists>r. paginate content page pageSize = Inr r)"
    using T1 by (auto simp: paginate_def sel pg_def)
  have d: "paginate content 0 n = paginate content 1 n"
    by (simp add: paginate_def select_page_def)
  show ?thesis
    unfolding Let_def pgc L_def [symmetric] P_def [symmetric] T [symmetric]
    using a b c d by blast
qed


theorem paginate_error_iff_witness:
  "1 \<le> sint (2 :: go_int) \<and> length abc_lines < 2 ^ 62
   \<and> paginate abc_lines 3 2 = Inl (PageExceedsTotal 3 2)
   \<and> (\<exists>r. paginate abc_lines 0 2 = Inr r)
   \<and> paginate abc_lines 0 2 = paginate abc_lines 1 2"
proof -
  have h: "1 \<le> sint (2 :: go_int)" "length abc_lines < 2 ^ 62" by (simp_all add: abc_lines_def)
  have c: "\<lceil>real_of_int (int (length (strings_Split abc_lines nl))) / real_of_int (sint (2 :: go_int))\<rceil> = 2"
    by (simp add: nl_def abc_lines_def)
  have a: "paginate abc_lines 3 2 = Inl (PageExceedsTotal 3 2)"
    using paginate_error_iff [OF h, of 3 2] unfolding Let_def c by simp
  have b: "\<exists>r. paginate abc_lines 0 2 = Inr r"
    using paginate_error_iff [OF h, of 0 2] unfolding Let_def c by (elim conjE) simp
  have d: "paginate abc_lines 0 2 = paginate abc_lines 1 2"
    using paginate_error_iff [OF h, of 0 2] by blast
  show ?thesis using h a b d by blast
qed

lemma select_page_nth:
  fixes content :: string
  assumes ps: "1 \<le> sint pageSize" and len: "length content < 2 ^ 62"
    and k: "int k < (int (length (strings_Split content nl)) + sint pageSize - 1) div sint pageSize"
  shows "select_page content (word_of_nat (Suc k)) pageSize =
     Inr \<lparr>pi_page = int (Suc k),
          pi_totalPages = (int (length (strings_Split content nl)) + sint pageSize - 1) div sint pageSize,
          pi_start = int k * sint pageSize,
          pi_end = min (int (length (strings_Split content nl))) (int (Suc k) * sint pageSize),
          pi_totalLines = int (length (strings_Split content nl)),
          pi_lines = take (nat (sint pageSize)) (drop (k * nat (sint pageSize)) (strings_Split content nl))\<rparr>"
proof -
  define P where "P = sint pageSize"
  define L where "L = int (length (strings_Split content nl))"
  define T where "T = (L + P - 1) div P"
  have L: "1 \<le> L" "L \<le> 2 ^ 62" using lines_bounds [OF len] by (simp_all add: L_def)
  have P: "1 \<le> P" using ps by (simp add: P_def)
  have "(T - 1) * P < L" unfolding T_def using P by (intro ceil_div_mult_less) auto
  moreover have kT: "int k < T" using k by (simp add: T_def L_def P_def)
  then have "(T - 1) * 1 \<le> (T - 1) * P" using P by (intro mult_left_mono) auto
  ultimately have TL: "T \<le> L" by simp
  have "int (Suc k) < 2 ^ 63" using kT TL L by simp
  then have "Suc k < 2 ^ 63" by (metis of_nat_less_iff of_nat_numeral of_nat_power)
  then have s: "sint (word_of_nat (Suc k) :: go_int) = int (Suc k)" by (rule sint64_of_nat)
  have n: "nat (int k * P) = k * nat P" using P by (simp add: nat_mult_distrib)
  show ?thesis
    using select_page_ok [OF ps len, of "word_of_nat (Suc k)"] kT n
    unfolding Let_def s P_def [symmetric] L_def [symmetric] T_def [symmetric]
    by (simp add: max_def)
qed

subsection \<open>The pages partition the content\<close>

text \<open>
  Claim C5. For a page size of at least 1 and a content of \<open>L\<close> lines there are
  \<open>max 1 (ceiling (L / pageSize))\<close> pages (the list \<open>pages\<close>; page \<open>k + 1\<close> is the result of
  \<open>paginate\<close> for that page number, a header followed by the page's lines). Each page is
  a non-empty run of whole lines, \<open>lines[start:end]\<close>: the first starts at line 0, each
  later one starts where the one before it ends, the last ends at \<open>L\<close>, so the ranges are
  disjoint and contiguous and no line is split. The lines of all pages together are the
  lines of the content, and joining the pages' contents with newlines gives the content
  back. The length bound holds for every string a 64-bit machine can hold.
\<close>

theorem paginate_round_trip:
  fixes content :: string
  assumes ps: "1 \<le> sint pageSize" and len: "length content < 2 ^ 62"
  shows "\<exists>pages.
      int (length pages) = max 1 \<lceil>real_of_int (int (length (strings_Split content nl))) / real_of_int (sint pageSize)\<rceil>
    \<and> (\<forall>k < length pages.
          select_page content (word_of_nat (Suc k)) pageSize = Inr (pages ! k)
        \<and> paginate content (word_of_nat (Suc k)) pageSize
            = Inr (page_metadata (pages ! k) @ [nl, nl] @ page_content (pages ! k))
        \<and> pi_page (pages ! k) = int (Suc k)
        \<and> pi_totalPages (pages ! k) = int (length pages)
        \<and> pi_start (pages ! k) = (if k = 0 then 0 else pi_end (pages ! (k - 1)))
        \<and> pi_start (pages ! k) < pi_end (pages ! k)
        \<and> pi_end (pages ! k) \<le> int (length (strings_Split content nl))
        \<and> pi_lines (pages ! k)
            = take (nat (pi_end (pages ! k) - pi_start (pages ! k)))
                (drop (nat (pi_start (pages ! k))) (strings_Split content nl)))
    \<and> pi_end (last pages) = int (length (strings_Split content nl))
    \<and> concat (map pi_lines pages) = strings_Split content nl
    \<and> strings_Join (map page_content pages) [nl] = content"
proof -
  define P where "P = sint pageSize"
  define lines where "lines = strings_Split content nl"
  define L where "L = int (length lines)"
  define T where "T = (L + P - 1) div P"
  define p where "p = nat P"
  define n where "n = nat T"
  define pg where "pg = (\<lambda>k. \<lparr>pi_page = int (Suc k), pi_totalPages = T, pi_start = int k * P,
      pi_end = min L (int (Suc k) * P), pi_totalLines = L,
      pi_lines = take p (drop (k * p) lines)\<rparr>)"
  define pages where "pages = map pg [0..<n]"
  have L: "1 \<le> L" "L \<le> 2 ^ 62" using lines_bounds [OF len] by (simp_all add: L_def lines_def)
  have P: "1 \<le> P" using ps by (simp add: P_def)
  have Tc: "T = max 1 \<lceil>real_of_int L / real_of_int P\<rceil>"
    unfolding T_def using P L by (intro total_is_ceiling)
  have T1: "1 \<le> T" using Tc by simp
  have n: "int n = T" "0 < n" using T1 by (simp_all add: n_def)
  have p: "int p = P" "0 < p" using P by (simp_all add: p_def)
  have lenp: "length pages = n" by (simp add: pages_def)
  have nth: "pages ! k = pg k" if "k < n" for k using that by (simp add: pages_def)
  have below: "int k * P < L" if "k < n" for k
  proof -
    have "int k \<le> T - 1" using that n by simp
    then have "int k * P \<le> (T - 1) * P" using P by (intro mult_right_mono) auto
    moreover have "(T - 1) * P < L" unfolding T_def using P by (intro ceil_div_mult_less) auto
    ultimately show ?thesis by simp
  qed
  have above: "L \<le> T * P" unfolding T_def using P by (intro ceil_div_mult_ge) auto
  have sel: "select_page content (word_of_nat (Suc k)) pageSize = Inr (pg k)" if "k < n" for k
  proof -
    have "int k < (int (length (strings_Split content nl)) + sint pageSize - 1) div sint pageSize"
      using that n by (simp add: T_def L_def lines_def P_def)
    from select_page_nth [OF ps len this] show ?thesis
      by (simp add: pg_def T_def L_def lines_def P_def p_def)
  qed
  have pag: "paginate content (word_of_nat (Suc k)) pageSize
      = Inr (page_metadata (pg k) @ [nl, nl] @ page_content (pg k))" if "k < n" for k
    using sel [OF that] by (simp add: paginate_def render_page_def)
  have start_end: "pi_start (pg (Suc k)) = pi_end (pg k)" if "Suc k < n" for k
  proof -
    have "int (Suc k) * P < L" using below [OF that] .
    then show ?thesis by (simp add: pg_def min_def)
  qed
  have st: "pi_start (pg k) = (if k = 0 then 0 else pi_end (pg (k - 1)))" if "k < n" for k
  proof (cases k)
    case 0
    then show ?thesis by (simp add: pg_def)
  next
    case (Suc j)
    then show ?thesis using start_end [of j] that by simp
  qed
  have nonempty: "pi_start (pg k) < pi_end (pg k)" if "k < n" for k
    using below [OF that] P by (simp add: pg_def min_def algebra_simps)
  have endL: "pi_end (pg k) \<le> L" for k by (simp add: pg_def)
  have lines_k: "pi_lines (pg k)
      = take (nat (pi_end (pg k) - pi_start (pg k))) (drop (nat (pi_start (pg k))) lines)"
    if "k < n" for k
  proof -
    have a: "nat (int k * P) = k * p" using P by (simp add: p_def nat_mult_distrib)
    show ?thesis
    proof (cases "int (Suc k) * P \<le> L")
      case True
      then have "min L (int (Suc k) * P) - int k * P = P" by (simp add: min_def algebra_simps)
      then show ?thesis by (simp add: pg_def a p_def)
    next
      case False
      then have m: "min L (int (Suc k) * P) = L" by (simp add: min_def)
      have "length (drop (k * p) lines) \<le> nat (L - int k * P)"
        using below [OF that] a by (simp add: L_def)
      moreover have "length (drop (k * p) lines) \<le> p"
      proof -
        have "int (length lines) < int (Suc k * p)"
          using False p(1) by (simp add: L_def algebra_simps)
        then have "length lines < Suc k * p" by (simp only: of_nat_less_iff)
        then show ?thesis by simp
      qed
      moreover have "pi_end (pg k) = L" "pi_start (pg k) = int k * P"
          "pi_lines (pg k) = take p (drop (k * p) lines)"
        using m by (simp_all add: pg_def)
      ultimately show ?thesis by (simp add: a)
    qed
  qed
  have lastp: "pi_end (last pages) = L"
  proof -
    have "pages \<noteq> []" using n lenp by auto
    then have "last pages = pages ! (n - 1)" using lenp by (simp add: last_conv_nth)
    also have "\<dots> = pg (n - 1)" using n by (intro nth) simp
    finally have "pi_end (last pages) = min L (int (Suc (n - 1)) * P)" by (simp add: pg_def)
    moreover have "int (Suc (n - 1)) = T" using n by simp
    ultimately show ?thesis using above by (simp add: min_def)
  qed
  have "length lines \<le> n * p"
  proof -
    have "int (length lines) \<le> int (n * p)" using above n p by (simp add: L_def)
    then show ?thesis by (simp only: of_nat_le_iff)
  qed
  then have cc: "concat (map (\<lambda>k. take p (drop (k * p) lines)) [0..<n]) = lines"
    by (rule concat_chunks)
  have ml: "map pi_lines pages = map (\<lambda>k. take p (drop (k * p) lines)) [0..<n]"
    by (simp add: pages_def pg_def comp_def)
  have conc: "concat (map pi_lines pages) = lines" using cc ml by simp
  have ne: "\<forall>c \<in> set (map pi_lines pages). c \<noteq> []"
  proof -
    have "take p (drop (k * p) lines) \<noteq> []" if "k < n" for k
    proof -
      have "int (k * p) < int (length lines)" using below [OF that] p by (simp add: L_def)
      then have "k * p < length lines" by (simp only: of_nat_less_iff)
      then show ?thesis using p by simp
    qed
    then show ?thesis unfolding ml by auto
  qed
  have "strings_Join (map page_content pages) [nl]
      = strings_Join (map (\<lambda>c. strings_Join c [nl]) (map pi_lines pages)) [nl]"
  proof -
    have "page_content = (\<lambda>x. strings_Join (pi_lines x) [nl])"
      by (rule ext) (simp add: page_content_def)
    then show ?thesis by (simp add: comp_def)
  qed
  also have "\<dots> = strings_Join (concat (map pi_lines pages)) [nl]"
    using ne by (rule Join_concat)
  also have "\<dots> = content" unfolding conc lines_def by (rule Join_Split)
  finally have rt: "strings_Join (map page_content pages) [nl] = content" .
  have all: "\<forall>k < length pages.
          select_page content (word_of_nat (Suc k)) pageSize = Inr (pages ! k)
        \<and> paginate content (word_of_nat (Suc k)) pageSize
            = Inr (page_metadata (pages ! k) @ [nl, nl] @ page_content (pages ! k))
        \<and> pi_page (pages ! k) = int (Suc k)
        \<and> pi_totalPages (pages ! k) = int (length pages)
        \<and> pi_start (pages ! k) = (if k = 0 then 0 else pi_end (pages ! (k - 1)))
        \<and> pi_start (pages ! k) < pi_end (pages ! k)
        \<and> pi_end (pages ! k) \<le> L
        \<and> pi_lines (pages ! k)
            = take (nat (pi_end (pages ! k) - pi_start (pages ! k)))
                (drop (nat (pi_start (pages ! k))) lines)"
  proof (intro allI impI)
    fix k assume "k < length pages"
    then have k: "k < n" using lenp by simp
    have k1: "pages ! (k - 1) = pg (k - 1)" using k by (intro nth) simp
    have "pi_page (pg k) = int (Suc k)" "pi_totalPages (pg k) = int n"
      using n by (simp_all add: pg_def)
    then show "select_page content (word_of_nat (Suc k)) pageSize = Inr (pages ! k)
        \<and> paginate content (word_of_nat (Suc k)) pageSize
            = Inr (page_metadata (pages ! k) @ [nl, nl] @ page_content (pages ! k))
        \<and> pi_page (pages ! k) = int (Suc k)
        \<and> pi_totalPages (pages ! k) = int (length pages)
        \<and> pi_start (pages ! k) = (if k = 0 then 0 else pi_end (pages ! (k - 1)))
        \<and> pi_start (pages ! k) < pi_end (pages ! k)
        \<and> pi_end (pages ! k) \<le> L
        \<and> pi_lines (pages ! k)
            = take (nat (pi_end (pages ! k) - pi_start (pages ! k)))
                (drop (nat (pi_start (pages ! k))) lines)"
      unfolding nth [OF k] k1 lenp
      using sel [OF k] pag [OF k] st [OF k] nonempty [OF k] endL [of k] lines_k [OF k]
      by simp
  qed
  have "int (length pages) = max 1 \<lceil>real_of_int L / real_of_int P\<rceil>"
    using lenp n Tc by simp
  then show ?thesis
    using all lastp conc rt
    unfolding L_def lines_def P_def by blast
qed


theorem paginate_round_trip_witness:
  "1 \<le> sint (2 :: go_int) \<and> length abc_lines < 2 ^ 62
   \<and> (\<exists>pages. length pages = 2
        \<and> select_page abc_lines 1 2 = Inr (pages ! 0)
        \<and> select_page abc_lines 2 2 = Inr (pages ! 1)
        \<and> pi_end (pages ! 0) = pi_start (pages ! 1)
        \<and> concat (map pi_lines pages) = strings_Split abc_lines nl
        \<and> strings_Join (map page_content pages) [nl] = abc_lines)"
proof -
  have h: "1 \<le> sint (2 :: go_int)" "length abc_lines < 2 ^ 62" by (simp_all add: abc_lines_def)
  have c: "\<lceil>real_of_int (int (length (strings_Split abc_lines nl))) / real_of_int (sint (2 :: go_int))\<rceil> = 2"
    by (simp add: nl_def abc_lines_def)
  from paginate_round_trip [OF h] obtain pages where
    n: "int (length pages) = 2"
    and k: "\<forall>k < length pages.
          select_page abc_lines (word_of_nat (Suc k)) 2 = Inr (pages ! k)
        \<and> pi_start (pages ! k) = (if k = 0 then 0 else pi_end (pages ! (k - 1)))"
    and r: "concat (map pi_lines pages) = strings_Split abc_lines nl"
       "strings_Join (map page_content pages) [nl] = abc_lines"
    unfolding c by auto
  have l: "length pages = 2" using n by simp
  have "select_page abc_lines (word_of_nat (Suc 0)) 2 = Inr (pages ! 0)"
       "select_page abc_lines (word_of_nat (Suc 1)) 2 = Inr (pages ! 1)"
       "pi_start (pages ! 1) = pi_end (pages ! 0)"
    using k [rule_format, of 0] k [rule_format, of 1] l by simp_all
  then show ?thesis using h l r by (intro conjI exI [of _ pages]) simp_all
qed

subsection \<open>When \<open>paginate\<close> returns\<close>

text \<open>
  Claim C9. \<open>paginate\<close> is total exactly under the precondition that the page size is at
  least 1. With a page size of at least 1 it never panics, for every content and page
  number: it returns a page or the out-of-range error. With page size 0 the division of
  line 192 panics for every input, and with a negative page size the slice expression of
  line 207 panics for page 1. The handler does not establish the precondition: once the
  path is resolved in a given working directory and \<open>runGoDoc\<close> has returned the
  documentation, the handler's answer is that of \<open>paginate\<close> on the page size of the
  request as it is (1000 when the request has none), without clamping it.
\<close>

theorem paginate_total_only_for_positive_pageSize:
  fixes doc :: string
  shows "(1 \<le> sint pageSize \<and> length doc < 2 ^ 62 \<longrightarrow>
           (\<forall>page err. paginate doc page pageSize = Inl err \<longrightarrow> \<not> is_panic err))
    \<and> (sint pageSize = 0 \<longrightarrow> (\<forall>page. paginate doc page pageSize = Inl PanicDivideByZero))
    \<and> (sint pageSize < 0 \<longrightarrow> paginate doc 1 pageSize = Inl PanicSliceBounds)
    \<and> (req_path request = Some pkgPath \<and> req_working_dir request = Some workingDir
         \<and> workingDir \<noteq> [] \<and> is_directory e workingDir
         \<and> find (\<lambda>f. \<not> allowedFlags f) (get_default (req_cmd_flags request) []) = None
         \<and> validatePath (read_file e) pkgPath workingDir = (resolvedPath, subDirs, None)
         \<and> runGoDoc e c workingDir
              (get_default (req_cmd_flags request) [] @ [resolvedPath]
                @ (if get_default (req_target request) [] \<noteq> []
                   then [get_default (req_target request) []] else []))
            = (Inr doc, c', cmds)
        \<longrightarrow> fst (handleGetDoc e c request)
            = (case paginate doc (get_default (req_page request) 1)
                      (get_default (req_page_size request) 1000) of
                 Inl err \<Rightarrow> if is_panic err then HandlerPanic err else ToolResultError (Failed err)
               | Inr result \<Rightarrow> ToolResultText result))"
proof (intro conjI impI allI)
  fix page err
  assume a: "1 \<le> sint pageSize \<and> length doc < 2 ^ 62" and b: "paginate doc page pageSize = Inl err"
  from a have ps: "1 \<le> sint pageSize" and len: "length doc < 2 ^ 62" by simp_all
  from b have "select_page doc page pageSize = Inl err" by (simp add: paginate_no_error_iff)
  then show "\<not> is_panic err"
    unfolding select_page_ok [OF ps len] Let_def by (auto split: if_splits)
next
  fix page
  assume "sint pageSize = 0"
  then show "paginate doc page pageSize = Inl PanicDivideByZero"
    by (simp add: paginate_def select_page_def)
next
  assume n: "sint pageSize < 0"
  define P where "P = sint pageSize"
  define L where "L = int (length (strings_Split doc nl))"
  have P: "P < 0" "- (2 ^ 63) \<le> P" using n sint64_range [of pageSize] by (simp_all add: P_def)
  have t: "1 \<le> total_pages L P" by (simp add: total_pages_def Let_def)
  have w: "wrap64 P = P" using P by (intro wrap64_id) auto
  have w0: "wrap64 0 = 0" by (simp add: wrap64_def)
  have "select_page doc 1 pageSize = Inl PanicSliceBounds"
    unfolding select_page_def Let_def P_def [symmetric] L_def [symmetric]
    using P t by (simp add: w w0 L_def)
  then show "paginate doc 1 pageSize = Inl PanicSliceBounds" by (simp add: paginate_def)
next
  assume h: "req_path request = Some pkgPath \<and> req_working_dir request = Some workingDir
         \<and> workingDir \<noteq> [] \<and> is_directory e workingDir
         \<and> find (\<lambda>f. \<not> allowedFlags f) (get_default (req_cmd_flags request) []) = None
         \<and> validatePath (read_file e) pkgPath workingDir = (resolvedPath, subDirs, None)
         \<and> runGoDoc e c workingDir
              (get_default (req_cmd_flags request) [] @ [resolvedPath]
                @ (if get_default (req_target request) [] \<noteq> []
                   then [get_default (req_target request) []] else []))
            = (Inr doc, c', cmds)"
  then have wd: "get_default (req_working_dir request) [] = workingDir"
    by (simp add: get_default_def)
  show "fst (handleGetDoc e c request)
            = (case paginate doc (get_default (req_page request) 1)
                      (get_default (req_page_size request) 1000) of
                 Inl err \<Rightarrow> if is_panic err then HandlerPanic err else ToolResultError (Failed err)
               | Inr result \<Rightarrow> ToolResultText result)"
    using h unfolding handleGetDoc_def Let_def wd
    by (cases subDirs) (auto split: sum.splits)
qed


theorem paginate_total_only_for_positive_pageSize_witness:
  "1 \<le> sint (1000 :: go_int) \<and> length abc_lines < 2 ^ 62
   \<and> paginate abc_lines 7 1000 = Inl (PageExceedsTotal 7 1) \<and> \<not> is_panic (PageExceedsTotal 7 1)
   \<and> sint (0 :: go_int) = 0 \<and> paginate abc_lines 7 0 = Inl PanicDivideByZero
   \<and> sint (- 1 :: go_int) < 0 \<and> paginate abc_lines 1 (- 1) = Inl PanicSliceBounds
   \<and> fst (handleGetDoc test_env [] test_request) = HandlerPanic PanicDivideByZero"
proof -
  have h: "1 \<le> sint (1000 :: go_int) \<and> length abc_lines < 2 ^ 62" by (simp add: abc_lines_def)
  have ev: "paginate abc_lines 7 1000 = Inl (PageExceedsTotal 7 1)"
    by (simp add: paginate_def select_page_def total_pages_def quo_def wrap64_def abc_lines_def
        nl_def Let_def)
  have a: "\<not> is_panic (PageExceedsTotal 7 1)"
    using paginate_total_only_for_positive_pageSize [where pageSize = 1000 and doc = abc_lines]
      h ev by blast
  have z: "sint (0 :: go_int) = 0" by simp
  have b: "paginate abc_lines 7 0 = Inl PanicDivideByZero"
    using paginate_total_only_for_positive_pageSize [where pageSize = 0 and doc = abc_lines]
      z by blast
  have n: "sint (- 1 :: go_int) < 0" by simp
  have c: "paginate abc_lines 1 (- 1) = Inl PanicSliceBounds"
    using paginate_total_only_for_positive_pageSize [where pageSize = "- 1" and doc = abc_lines]
      n by blast
  have v: "validatePath (read_file test_env) ''io'' ''/w'' = (''io'', None, None)"
    by (simp add: validatePath_def strings_HasPrefix_def filepath_IsAbs_def)
  have r: "runGoDoc test_env [] ''/w'' [''io'']
      = (Inr abc_lines, store [] (cacheKey ''/w'' [''io'']) abc_lines 1,
         [(''/w'', [''go'', ''doc'', ''io''])])"
    by (simp add: runGoDoc_def lookup_def test_env_def Let_def)
  have p: "paginate abc_lines 1 0 = Inl PanicDivideByZero"
    by (simp add: paginate_def select_page_def)
  have d: "fst (handleGetDoc test_env [] test_request) = HandlerPanic PanicDivideByZero"
    using paginate_total_only_for_positive_pageSize [where request = test_request
        and e = test_env and c = "[]" and doc = abc_lines and pkgPath = "''io''"
        and workingDir = "''/w''" and resolvedPath = "''io''" and subDirs = None
        and c' = "store [] (cacheKey ''/w'' [''io'']) abc_lines 1"
        and cmds = "[(''/w'', [''go'', ''doc'', ''io''])]"] v r p
    by (simp add: test_request_def get_default_def test_env_def)
  show ?thesis using h ev a z b n c d by blast
qed

subsection \<open>The cache\<close>

lemma length_delete_less:
  "k \<in> fst ` set c \<Longrightarrow> length (AList.delete k c) < length c"
proof (induction c)
  case Nil
  then show ?case by simp
next
  case (Cons p c)
  show ?case
  proof (cases "fst p = k")
    case True
    then show ?thesis using AList.length_delete_le [of k c] by (simp add: less_Suc_eq_le)
  next
    case False
    then have "k \<in> fst ` set c" using Cons.prems by auto
    then show ?thesis using Cons.IH False by simp
  qed
qed

lemma length_delete_distinct:
  "distinct (map fst c) \<Longrightarrow> k \<in> fst ` set c \<Longrightarrow> Suc (length (AList.delete k c)) = length c"
  by (induction c) (auto simp: rev_image_eqI)

lemma length_update_new:
  "k \<notin> fst ` set c \<Longrightarrow> length (AList.update k v c) = Suc (length c)"
  by (induction c) auto

lemma length_update_old:
  "k \<in> fst ` set c \<Longrightarrow> length (AList.update k v c) = length c"
  by (induction c) auto

lemma length_update_le: "length (AList.update k v c) \<le> Suc (length c)"
  by (induction c) auto

lemma set_delete_distinct:
  "distinct (map fst c) \<Longrightarrow> (k, v) \<in> set c \<Longrightarrow> set (AList.delete k c) = set c - {(k, v)}"
  by (induction c) (auto simp: rev_image_eqI)

lemma oldest_scan_key:
  "fst (oldest_scan c oldestKey oldestTime) \<in> insert oldestKey (fst ` set c)"
  by (induction c oldestKey oldestTime rule: oldest_scan.induct) auto

lemma oldest_scan_key_first: "c \<noteq> [] \<Longrightarrow> fst (oldest_scan c [] t) \<in> fst ` set c"
proof (cases c)
  case Nil
  then show "c \<noteq> [] \<Longrightarrow> ?thesis" by simp
next
  case (Cons p rest)
  obtain k v where p: "p = (k, v)" by (cases p)
  show ?thesis using oldest_scan_key [of rest k "timestamp v"] Cons p by auto
qed

lemma oldest_scan_min:
  assumes "[] \<notin> fst ` set c" and "oldestKey \<noteq> []"
    and "oldest_scan c oldestKey oldestTime = (k, t)"
  shows "t \<le> oldestTime \<and> (\<forall>(k', v') \<in> set c. t \<le> timestamp v')
    \<and> ((k, t) = (oldestKey, oldestTime) \<or> (\<exists>v. (k, v) \<in> set c \<and> timestamp v = t))"
  using assms
proof (induction c oldestKey oldestTime rule: oldest_scan.induct)
  case (1 oldestKey oldestTime)
  then show ?case by simp
next
  case (2 k0 v0 rest oldestKey oldestTime)
  show ?case
  proof (cases "timestamp v0 < oldestTime")
    case True
    have k0: "k0 \<noteq> []" using "2.prems"(1) by auto
    have "oldest_scan rest k0 (timestamp v0) = (k, t)" using "2.prems" True by simp
    from "2.IH"(1) [OF _ _ k0 this] "2.prems" True
    show ?thesis by auto
  next
    case False
    have "oldest_scan rest oldestKey oldestTime = (k, t)" using "2.prems" False by simp
    from "2.IH"(2) [OF _ _ "2.prems"(2) this] "2.prems" False
    show ?thesis by auto
  qed
qed

lemma oldest_scan_oldest:
  assumes "[] \<notin> fst ` set c" and "c \<noteq> []"
  shows "\<exists>v. (fst (oldest_scan c [] t0), v) \<in> set c \<and> (\<forall>(k', v') \<in> set c. timestamp v \<le> timestamp v')"
proof -
  obtain k0 v0 rest where c: "c = (k0, v0) # rest" using assms(2) by (cases c) auto
  obtain k t where s: "oldest_scan rest k0 (timestamp v0) = (k, t)" by (cases "oldest_scan rest k0 (timestamp v0)")
  have k0: "k0 \<noteq> []" and r: "[] \<notin> fst ` set rest" using assms(1) c by auto
  from oldest_scan_min [OF r k0 s]
  have m: "t \<le> timestamp v0" "\<forall>(k', v') \<in> set rest. t \<le> timestamp v'"
    "(k, t) = (k0, timestamp v0) \<or> (\<exists>v. (k, v) \<in> set rest \<and> timestamp v = t)" by auto
  have f: "fst (oldest_scan c [] t0) = k" using c s by simp
  from m(3) obtain v where v: "(k, v) \<in> set c" "timestamp v = t" using c by auto
  have "\<forall>(k', v') \<in> set c. timestamp v \<le> timestamp v'" using m(1,2) v(2) c by auto
  then show ?thesis using f v(1) by blast
qed

lemma evict_length: "length (evict c) \<le> length c"
  by (simp add: evict_def AList.length_delete_le)

lemma evict_full_length: "maxCacheSize \<le> length c \<Longrightarrow> length (evict c) < length c"
proof -
  assume a: "maxCacheSize \<le> length c"
  then have "c \<noteq> []" by (auto simp: maxCacheSize_def)
  then have "fst (oldest_scan c [] 0) \<in> fst ` set c" by (rule oldest_scan_key_first)
  then show ?thesis using a by (simp add: evict_def length_delete_less)
qed

lemma store_length: "length c \<le> maxCacheSize \<Longrightarrow> length (store c key doc now) \<le> maxCacheSize"
proof (cases "maxCacheSize \<le> length c")
  case True
  assume "length c \<le> maxCacheSize"
  with evict_full_length [OF True] have "Suc (length (evict c)) \<le> maxCacheSize" by simp
  then show ?thesis
    using length_update_le [of key "\<lparr>content = doc, timestamp = now\<rparr>" "evict c"]
    by (simp add: store_def)
next
  case False
  then have "evict c = c" by (simp add: evict_def)
  then show ?thesis
    using False length_update_le [of key "\<lparr>content = doc, timestamp = now\<rparr>" c]
    by (simp add: store_def)
qed

lemma lookup_length: "length (snd (lookup c key now)) \<le> length c"
  by (simp add: lookup_def AList.length_delete_le split: option.splits)

lemma lookup_distinct: "distinct (map fst c) \<Longrightarrow> distinct (map fst (snd (lookup c key now)))"
  by (simp add: lookup_def AList.distinct_delete split: option.splits)

lemma store_distinct: "distinct (map fst c) \<Longrightarrow> distinct (map fst (store c key doc now))"
  by (simp add: store_def evict_def AList.distinct_update AList.distinct_delete)

lemma lookup_keys: "fst ` set (snd (lookup c key now)) \<subseteq> fst ` set c"
  using AList.dom_delete_subset [of key c] by (auto simp: lookup_def split: option.splits)

lemma store_keys: "fst ` set (store c key doc now) \<subseteq> insert key (fst ` set c)"
  using AList.dom_delete_subset [of _ c] by (auto simp: store_def evict_def AList.dom_update)

lemma cacheKey_nonempty: "cacheKey workingDir args \<noteq> []"
  by (simp add: cacheKey_def)

lemma lookup_inv: "cache_inv c \<Longrightarrow> cache_inv (snd (lookup c key now))"
  using lookup_keys [of c key now] lookup_distinct [of c key now] by (auto simp: cache_inv_def)

lemma store_inv: "cache_inv c \<Longrightarrow> key \<noteq> [] \<Longrightarrow> cache_inv (store c key doc now)"
  using store_keys [of c key doc now] store_distinct [of c key doc now] by (auto simp: cache_inv_def)

lemma reachable_inv: "reachable c \<Longrightarrow> cache_inv c"
proof (induction rule: reachable.induct)
  case reachable_new
  show ?case by (simp add: cache_inv_def)
next
  case (reachable_lookup c workingDir args now)
  then show ?case by (intro lookup_inv)
next
  case (reachable_store c workingDir args doc now)
  then show ?case by (intro store_inv cacheKey_nonempty)
qed

lemma runGoDoc_cache:
  "fst (snd (runGoDoc e c workingDir args)) = snd (lookup c (cacheKey workingDir args) (now_lookup e))
   \<or> (\<exists>out. fst (snd (runGoDoc e c workingDir args))
         = store (snd (lookup c (cacheKey workingDir args) (now_lookup e)))
             (cacheKey workingDir args) out (now_store e))"
  by (auto simp: runGoDoc_def Let_def split: prod.splits option.splits)

lemma runGoDoc_length:
  assumes "length c \<le> maxCacheSize"
  shows "length (fst (snd (runGoDoc e c workingDir args))) \<le> maxCacheSize"
proof -
  have l: "length (snd (lookup c (cacheKey workingDir args) (now_lookup e))) \<le> maxCacheSize"
    using lookup_length [of c "cacheKey workingDir args" "now_lookup e"] assms by simp
  from runGoDoc_cache [of e c workingDir args] show ?thesis
    using l store_length [OF l] by auto
qed

lemma runGoDoc_inv: "cache_inv c \<Longrightarrow> cache_inv (fst (snd (runGoDoc e c workingDir args)))"
  using runGoDoc_cache [of e c workingDir args]
    lookup_inv [of c "cacheKey workingDir args" "now_lookup e"]
    store_inv [OF _ cacheKey_nonempty, of "snd (lookup c (cacheKey workingDir args) (now_lookup e))" workingDir args]
  by auto

lemma run_ops_snoc: "run_ops c (ops @ [x]) = apply_op (run_ops c ops) x"
  by (simp add: run_ops_def)

lemma run_ops_bounded:
  "distinct (map fst c) \<Longrightarrow> length c \<le> maxCacheSize \<Longrightarrow>
     distinct (map fst (run_ops c ops)) \<and> length (run_ops c ops) \<le> maxCacheSize"
proof (induction ops rule: rev_induct)
  case Nil
  then show ?case by (simp add: run_ops_def)
next
  case (snoc x ops)
  then have ih: "distinct (map fst (run_ops c ops))" "length (run_ops c ops) \<le> maxCacheSize"
    by simp_all
  show ?case
  proof (cases x)
    case (Lookup key now)
    then show ?thesis
      using ih lookup_distinct [of "run_ops c ops" key now] lookup_length [of "run_ops c ops" key now]
      by (simp add: run_ops_snoc)
  next
    case (Store key doc now)
    then show ?thesis
      using ih store_distinct [of "run_ops c ops" key doc now] store_length [of "run_ops c ops" key doc now]
      by (simp add: run_ops_snoc)
  qed
qed

text \<open>
  Claim C3. Start from a cache of at most \<open>maxCacheSize\<close> (500) entries and run any
  sequence of critical sections of \<open>runGoDoc\<close> (lookups, with or without the removal of
  an expired entry, and insertions, with or without an eviction). After each of them the
  cache has at most \<open>maxCacheSize\<close> entries, with distinct keys, so that the length of the
  list is the size of the map; the same holds between the eviction and the insertion, and
  after a whole call of \<open>runGoDoc\<close> from any of these states.
\<close>

theorem cache_size_bounded:
  assumes "distinct (map fst c)" and "length c \<le> maxCacheSize"
  shows "\<forall>n \<le> length ops.
      distinct (map fst (run_ops c (take n ops)))
    \<and> length (run_ops c (take n ops)) \<le> maxCacheSize
    \<and> length (evict (run_ops c (take n ops))) \<le> maxCacheSize
    \<and> length (fst (snd (runGoDoc e (run_ops c (take n ops)) workingDir args))) \<le> maxCacheSize"
proof (intro allI impI)
  fix n
  have b: "distinct (map fst (run_ops c (take n ops))) \<and> length (run_ops c (take n ops)) \<le> maxCacheSize"
    using assms by (rule run_ops_bounded)
  then show "distinct (map fst (run_ops c (take n ops)))
    \<and> length (run_ops c (take n ops)) \<le> maxCacheSize
    \<and> length (evict (run_ops c (take n ops))) \<le> maxCacheSize
    \<and> length (fst (snd (runGoDoc e (run_ops c (take n ops)) workingDir args))) \<le> maxCacheSize"
    using evict_length [of "run_ops c (take n ops)"] runGoDoc_length [of "run_ops c (take n ops)" e workingDir args]
    by simp
qed

subsection \<open>Calls of \<open>runGoDoc\<close>\<close>

lemma lookup_miss:
  assumes "lookup c key now = (None, c1)"
  shows "key \<notin> fst ` set c1 \<and> map_of c1 key = None \<and> (map_of c key = None \<longrightarrow> c1 = c)"
proof (cases "map_of c key")
  case None
  then have "c1 = c" using assms by (simp add: lookup_def)
  then show ?thesis using None by (simp add: map_of_eq_None_iff)
next
  case (Some entry)
  then have "c1 = AList.delete key c" using assms by (simp add: lookup_def split: if_splits)
  then show ?thesis using Some by (simp add: AList.delete_notin_dom AList.delete_conv')
qed

text \<open>The second critical section on a full cache: the eviction removes the oldest entry,
  and the size that the insertion leaves depends on whether the key is still there.\<close>

lemma evict_full:
  assumes inv: "cache_inv c" and full: "length c = maxCacheSize"
  shows "\<exists>k v. (k, v) \<in> set c \<and> (\<forall>(k', v') \<in> set c. timestamp v \<le> timestamp v')
      \<and> set (evict c) = set c - {(k, v)}
      \<and> Suc (length (evict c)) = maxCacheSize"
proof -
  have ne: "c \<noteq> []" using full by (auto simp: maxCacheSize_def)
  have d: "distinct (map fst c)" and e: "[] \<notin> fst ` set c" using inv by (simp_all add: cache_inv_def)
  define k where "k = fst (oldest_scan c [] 0)"
  have "\<exists>v. (k, v) \<in> set c \<and> (\<forall>(k', v') \<in> set c. timestamp v \<le> timestamp v')"
    unfolding k_def using e ne by (rule oldest_scan_oldest)
  then obtain v where vm: "(k, v) \<in> set c \<and> (\<forall>(k', v') \<in> set c. timestamp v \<le> timestamp v')" ..
  then have v: "(k, v) \<in> set c" ..
  have ev: "evict c = AList.delete k c" using full by (simp add: evict_def k_def)
  have kin: "k \<in> fst ` set c" using v by (simp add: rev_image_eqI)
  have s: "set (evict c) = set c - {(k, v)}" unfolding ev using d v by (rule set_delete_distinct)
  have "Suc (length (evict c)) = length c" unfolding ev using d kin by (rule length_delete_distinct)
  then have l: "Suc (length (evict c)) = maxCacheSize" using full by simp
  with vm s show ?thesis by (intro exI [of _ k] exI [of _ v] conjI) (elim conjE, assumption)+
qed

lemma store_full_length:
  assumes "cache_inv c" and "length c = maxCacheSize"
  shows "length (store c key doc now)
      = (if key \<in> fst ` set (evict c) then maxCacheSize - 1 else maxCacheSize)"
proof -
  from evict_full [OF assms] have l: "Suc (length (evict c)) = maxCacheSize" by (elim exE conjE)
  show ?thesis
  proof (cases "key \<in> fst ` set (evict c)")
    case True
    then have "length (store c key doc now) = length (evict c)"
      by (simp add: store_def length_update_old)
    then show ?thesis using True l by simp
  next
    case False
    then have "length (store c key doc now) = Suc (length (evict c))"
      by (simp add: store_def length_update_new)
    then show ?thesis using False l by simp
  qed
qed

text \<open>
  Claim C4, as amended. Let the second critical section of \<open>runGoDoc\<close> run on a cache that
  holds \<open>maxCacheSize\<close> entries (with distinct, non-empty keys, as every cache that the
  server reaches has). The eviction scan removes exactly one entry, and its timestamp is
  less than or equal to the timestamp of every entry of the cache (which of several oldest
  ones is removed depends on the order of the scan). The new entry is then put into what
  is left. When its key is not in the cache after the eviction, the cache has
  \<open>maxCacheSize\<close> entries again: so it is for every key that was not in the cache, and so
  it is in every call of \<open>runGoDoc\<close> that reaches its insertion on the cache that its own
  lookup left. When the key is still in the cache after the eviction, its entry is
  replaced and the cache is left with \<open>maxCacheSize - 1\<close> entries.
\<close>

theorem store_on_full_cache:
  assumes "cache_inv c" and "length c = maxCacheSize"
  shows "(\<exists>k v. (k, v) \<in> set c \<and> (\<forall>(k', v') \<in> set c. timestamp v \<le> timestamp v')
          \<and> set (evict c) = set c - {(k, v)})
      \<and> Suc (length (evict c)) = maxCacheSize
      \<and> store c key doc now = AList.update key \<lparr>content = doc, timestamp = now\<rparr> (evict c)
      \<and> length (store c key doc now)
          = (if key \<in> fst ` set (evict c) then maxCacheSize - 1 else maxCacheSize)
      \<and> (key \<notin> fst ` set c \<longrightarrow> length (store c key doc now) = maxCacheSize)
      \<and> (\<forall>e c0 workingDir args.
            lookup c0 (cacheKey workingDir args) (now_lookup e) = (None, c)
            \<and> run_command e workingDir (''go'' # ''doc'' # args) = (doc, None)
          \<longrightarrow> fst (snd (runGoDoc e c0 workingDir args))
                = store c (cacheKey workingDir args) doc (now_store e)
              \<and> length (fst (snd (runGoDoc e c0 workingDir args))) = maxCacheSize)"
proof (intro conjI allI impI)
  from evict_full [OF assms] obtain k v where
    kv: "(k, v) \<in> set c" "\<forall>(k', v') \<in> set c. timestamp v \<le> timestamp v'"
      "set (evict c) = set c - {(k, v)}"
    and l: "Suc (length (evict c)) = maxCacheSize"
    by (elim exE conjE)
  from kv show "\<exists>k v. (k, v) \<in> set c \<and> (\<forall>(k', v') \<in> set c. timestamp v \<le> timestamp v')
          \<and> set (evict c) = set c - {(k, v)}"
    by (intro exI [of _ k] exI [of _ v] conjI)
  show "Suc (length (evict c)) = maxCacheSize" by (rule l)
  show "store c key doc now = AList.update key \<lparr>content = doc, timestamp = now\<rparr> (evict c)"
    by (simp add: store_def)
  show "length (store c key doc now)
          = (if key \<in> fst ` set (evict c) then maxCacheSize - 1 else maxCacheSize)"
    using assms by (rule store_full_length)
  have sub: "fst ` set (evict c) \<subseteq> fst ` set c"
    using AList.dom_delete_subset [of _ c] by (auto simp: evict_def)
  {
    fix key' :: string and doc' :: string and now' :: time
    assume "key' \<notin> fst ` set c"
    then have "key' \<notin> fst ` set (evict c)" using sub by blast
    then have "length (store c key' doc' now') = maxCacheSize"
      using store_full_length [OF assms, of key' doc' now'] by simp
  }
  note new = this
  {
    assume "key \<notin> fst ` set c"
    then show "length (store c key doc now) = maxCacheSize" by (rule new)
  }
  fix e :: env and c0 :: cache and workingDir :: string and args :: "string list"
  assume h: "lookup c0 (cacheKey workingDir args) (now_lookup e) = (None, c)
            \<and> run_command e workingDir (''go'' # ''doc'' # args) = (doc, None)"
  then have h1: "lookup c0 (cacheKey workingDir args) (now_lookup e) = (None, c)"
    and h2: "run_command e workingDir (''go'' # ''doc'' # args) = (doc, None)" by simp_all
  show r: "fst (snd (runGoDoc e c0 workingDir args))
      = store c (cacheKey workingDir args) doc (now_store e)"
    unfolding runGoDoc_def Let_def h1 h2 by simp
  have "cacheKey workingDir args \<notin> fst ` set c" using lookup_miss [OF h1] by simp
  then show "length (fst (snd (runGoDoc e c0 workingDir args))) = maxCacheSize"
    unfolding r by (rule new)
qed


lemma if_chain_cases: "(if a then x else if b then y else if c then z else w) \<in> {x, y, z, w}"
  by simp

lemma formatGoDocError_cases:
  "formatGoDocError out err
     \<in> {PackageNotFound out, SymbolNotFound err, NoGoFilesForPlatform err, GoDocError err out}"
  unfolding formatGoDocError_def by (rule if_chain_cases)

text \<open>
  Claim C8. When the lookup of a call misses and the extractor fails (the command returns
  an error: a non-zero exit status, or the kill at the timeout), \<open>runGoDoc\<close> returns the
  failure that \<open>formatGoDocError\<close> builds, which is of one of its four kinds, and the
  cache is the one the lookup left, exactly as it was when the extractor was started: it
  has no entry for the key of the call and nothing that was not there before the call.
\<close>

theorem runGoDoc_failure_not_cached:
  assumes "lookup c (cacheKey workingDir args) (now_lookup e) = (None, c1)"
    and "run_command e workingDir (''go'' # ''doc'' # args) = (out, Some err)"
  shows "runGoDoc e c workingDir args
        = (Inl (formatGoDocError out err), c1, [(workingDir, ''go'' # ''doc'' # args)])
    \<and> formatGoDocError out err
        \<in> {PackageNotFound out, SymbolNotFound err, NoGoFilesForPlatform err, GoDocError err out}
    \<and> map_of c1 (cacheKey workingDir args) = None
    \<and> set c1 \<subseteq> set c"
proof (intro conjI)
  show "runGoDoc e c workingDir args
        = (Inl (formatGoDocError out err), c1, [(workingDir, ''go'' # ''doc'' # args)])"
    unfolding runGoDoc_def Let_def assms by simp
  show "formatGoDocError out err
        \<in> {PackageNotFound out, SymbolNotFound err, NoGoFilesForPlatform err, GoDocError err out}"
    by (rule formatGoDocError_cases)
  show "map_of c1 (cacheKey workingDir args) = None" using lookup_miss [OF assms(1)] by simp
  show "set c1 \<subseteq> set c"
  proof (cases "map_of c (cacheKey workingDir args)")
    case None
    then show ?thesis using lookup_miss [OF assms(1)] by simp
  next
    case (Some entry)
    then have "c1 = AList.delete (cacheKey workingDir args) c"
      using assms(1) by (simp add: lookup_def split: if_splits)
    then show ?thesis by (auto simp: AList.delete_eq)
  qed
qed

lemma runGoDoc_hit:
  assumes "map_of c (cacheKey workingDir args) = Some entry"
    and "now_lookup e - timestamp entry < cacheTTL"
  shows "runGoDoc e c workingDir args = (Inr (content entry), c, [])"
  using assms by (simp add: runGoDoc_def lookup_def Let_def)

text \<open>
  Claim C1. Let a call of \<open>runGoDoc\<close> return a content. Then the cache it leaves has an
  entry for the key of its directory and arguments, with that content (and, when the call
  ran the extractor, with the time of its insertion); and a second call with the same
  directory and the same arguments, made while this entry is younger than \<open>cacheTTL\<close>,
  returns the same content, leaves the cache as it is, and runs no command. This holds
  for a second call that follows at once, and for one made later on any cache that still
  holds the entry.
\<close>

theorem runGoDoc_second_call_hit:
  assumes "runGoDoc e1 c workingDir args = (Inr doc, c1, cmds1)"
  shows "\<exists>entry. map_of c1 (cacheKey workingDir args) = Some entry \<and> content entry = doc
      \<and> (cmds1 \<noteq> [] \<longrightarrow> timestamp entry = now_store e1)
      \<and> (now_lookup e2 - timestamp entry < cacheTTL \<longrightarrow>
           runGoDoc e2 c1 workingDir args = (Inr doc, c1, []))
      \<and> (\<forall>c2. map_of c2 (cacheKey workingDir args) = Some entry
              \<and> now_lookup e2 - timestamp entry < cacheTTL \<longrightarrow>
           runGoDoc e2 c2 workingDir args = (Inr doc, c2, []))"
proof -
  define key where "key = cacheKey workingDir args"
  obtain r c0 where l: "lookup c key (now_lookup e1) = (r, c0)" by (cases "lookup c key (now_lookup e1)")
  have "\<exists>entry. map_of c1 key = Some entry \<and> content entry = doc
      \<and> (cmds1 \<noteq> [] \<longrightarrow> timestamp entry = now_store e1)"
  proof (cases r)
    case (Some d)
    then obtain entry where en: "map_of c key = Some entry" "now_lookup e1 - timestamp entry < cacheTTL"
        "d = content entry" "c0 = c"
      using l by (auto simp: lookup_def split: option.splits if_splits)
    have "runGoDoc e1 c workingDir args = (Inr d, c0, [])"
      unfolding runGoDoc_def Let_def key_def [symmetric] l Some by simp
    then have "doc = d" "c1 = c0" "cmds1 = []" using assms by simp_all
    then show ?thesis using en by simp
  next
    case None
    obtain out err where x: "run_command e1 workingDir (''go'' # ''doc'' # args) = (out, err)"
      by (cases "run_command e1 workingDir (''go'' # ''doc'' # args)")
    show ?thesis
    proof (cases err)
      case None
      have "runGoDoc e1 c workingDir args
          = (Inr out, store c0 key out (now_store e1), [(workingDir, ''go'' # ''doc'' # args)])"
        unfolding runGoDoc_def Let_def key_def [symmetric] l \<open>r = None\<close> x None by simp
      then have "doc = out" "c1 = store c0 key out (now_store e1)" using assms by simp_all
      then show ?thesis by (simp add: store_def AList.update_conv')
    next
      case (Some er)
      have "runGoDoc e1 c workingDir args
          = (Inl (formatGoDocError out er), c0, [(workingDir, ''go'' # ''doc'' # args)])"
        unfolding runGoDoc_def Let_def key_def [symmetric] l \<open>r = None\<close> x Some by simp
      then show ?thesis using assms by simp
    qed
  qed
  then obtain entry where en: "map_of c1 key = Some entry" "content entry = doc"
      "cmds1 \<noteq> [] \<longrightarrow> timestamp entry = now_store e1" by blast
  have g: "\<forall>c2. map_of c2 (cacheKey workingDir args) = Some entry
              \<and> now_lookup e2 - timestamp entry < cacheTTL \<longrightarrow>
           runGoDoc e2 c2 workingDir args = (Inr doc, c2, [])"
    using runGoDoc_hit [of _ workingDir args entry e2] en(2) by simp
  then have "now_lookup e2 - timestamp entry < cacheTTL \<longrightarrow>
           runGoDoc e2 c1 workingDir args = (Inr doc, c1, [])"
    using en(1) by (simp add: key_def)
  with en g show ?thesis unfolding key_def by (intro exI [of _ entry] conjI)
qed

subsection \<open>The cache of the eviction test, and the calls at concrete inputs\<close>

lemma test_cache_length: "length test_cache = maxCacheSize"
  by (simp add: test_cache_def)

lemma test_cache_keys:
  "map fst test_cache = map (\<lambda>i. replicate (Suc i) CHR ''x'') [0..<maxCacheSize]"
  by (simp add: test_cache_def comp_def)

lemma test_cache_inv: "cache_inv test_cache"
proof -
  have "inj_on (\<lambda>i. replicate (Suc i) CHR ''x'') (set [0..<maxCacheSize])"
  proof (rule inj_onI)
    fix i j
    assume "replicate (Suc i) CHR ''x'' = replicate (Suc j) CHR ''x''"
    then have "length (replicate (Suc i) CHR ''x'') = length (replicate (Suc j) CHR ''x'')"
      by (rule arg_cong)
    then show "i = j" by simp
  qed
  then have "distinct (map fst test_cache)"
    unfolding test_cache_keys by (simp add: distinct_map)
  moreover have "[] \<notin> set (map fst test_cache)"
    unfolding test_cache_keys by auto
  ultimately show ?thesis by (simp add: cache_inv_def)
qed

lemma test_cache_miss: "lookup test_cache (cacheKey ''/w'' [''io'']) now = (None, test_cache)"
proof -
  have x: "k \<in> set (map fst test_cache) \<Longrightarrow> hd k = CHR ''x''" for k
    unfolding test_cache_keys by auto
  have "cacheKey ''/w'' [''io''] \<notin> set (map fst test_cache)"
  proof
    assume "cacheKey ''/w'' [''io''] \<in> set (map fst test_cache)"
    then have "hd (cacheKey ''/w'' [''io'']) = CHR ''x''" by (rule x)
    then show False by (simp add: cacheKey_def)
  qed
  then have "map_of test_cache (cacheKey ''/w'' [''io'']) = None"
    by (simp add: map_of_eq_None_iff)
  then show ?thesis by (simp add: lookup_def)
qed

theorem cache_size_bounded_witness:
  "distinct (map fst test_cache) \<and> length test_cache \<le> maxCacheSize
   \<and> length (run_ops test_cache [Store (cacheKey ''/w'' [''io'']) abc_lines 1]) \<le> maxCacheSize
   \<and> length (fst (snd (runGoDoc test_env
        (run_ops test_cache [Store (cacheKey ''/w'' [''io'']) abc_lines 1]) ''/w'' [''fmt''])))
      \<le> maxCacheSize"
proof -
  have h: "distinct (map fst test_cache)" "length test_cache \<le> maxCacheSize"
    using test_cache_inv test_cache_length by (simp_all add: cache_inv_def)
  from cache_size_bounded [OF h, of "[Store (cacheKey ''/w'' [''io'']) abc_lines 1]" test_env "''/w''" "[''fmt'']",
      rule_format, of 1]
  show ?thesis using h by simp
qed

theorem store_on_full_cache_witness:
  "cache_inv test_cache \<and> length test_cache = maxCacheSize
   \<and> (\<exists>k v. (k, v) \<in> set test_cache
        \<and> (\<forall>(k', v') \<in> set test_cache. timestamp v \<le> timestamp v')
        \<and> set (evict test_cache) = set test_cache - {(k, v)})
   \<and> cacheKey ''/w'' [''io''] \<notin> fst ` set test_cache
   \<and> length (store test_cache (cacheKey ''/w'' [''io'']) abc_lines 1) = maxCacheSize
   \<and> lookup test_cache (cacheKey ''/w'' [''io'']) (now_lookup test_env) = (None, test_cache)
   \<and> run_command test_env ''/w'' [''go'', ''doc'', ''io''] = (abc_lines, None)
   \<and> length (fst (snd (runGoDoc test_env test_cache ''/w'' [''io'']))) = maxCacheSize"
proof -
  note t = store_on_full_cache [OF test_cache_inv test_cache_length, of "cacheKey ''/w'' [''io'']" abc_lines 1]
  have new: "cacheKey ''/w'' [''io''] \<notin> fst ` set test_cache"
    using lookup_miss [OF test_cache_miss [of "now_lookup test_env"]] by simp
  have r: "run_command test_env ''/w'' [''go'', ''doc'', ''io''] = (abc_lines, None)"
    by (simp add: test_env_def)
  from t have a: "\<exists>k v. (k, v) \<in> set test_cache
        \<and> (\<forall>(k', v') \<in> set test_cache. timestamp v \<le> timestamp v')
        \<and> set (evict test_cache) = set test_cache - {(k, v)}" by (elim conjE)
  from t new have b: "length (store test_cache (cacheKey ''/w'' [''io'']) abc_lines 1) = maxCacheSize"
    by (elim conjE) simp
  from t have "\<forall>e c0 workingDir args.
            lookup c0 (cacheKey workingDir args) (now_lookup e) = (None, test_cache)
            \<and> run_command e workingDir (''go'' # ''doc'' # args) = (abc_lines, None)
          \<longrightarrow> fst (snd (runGoDoc e c0 workingDir args))
                = store test_cache (cacheKey workingDir args) abc_lines (now_store e)
              \<and> length (fst (snd (runGoDoc e c0 workingDir args))) = maxCacheSize"
    by (elim conjE)
  then have c: "length (fst (snd (runGoDoc test_env test_cache ''/w'' [''io'']))) = maxCacheSize"
    using test_cache_miss [of "now_lookup test_env"] r by blast
  from test_cache_inv test_cache_length a new b test_cache_miss [of "now_lookup test_env"] r c
  show ?thesis by (intro conjI)
qed

subsection \<open>Two overlapping calls for one key\<close>

lemma key_x_inj: "key_x i = key_x j \<Longrightarrow> i = j"
proof -
  assume "key_x i = key_x j"
  then have "length (key_x i) = length (key_x j)" by (rule arg_cong)
  then show ?thesis by (simp add: key_x_def cacheKey_def)
qed

lemma filled_length: "length (filled n) = n"
  by (simp add: filled_def)

lemma filled_keys: "fst ` set (filled n) = key_x ` {0..<n}"
  by (force simp: filled_def)

lemma filled_new_key: "key_x n \<notin> fst ` set (filled n)"
proof
  assume "key_x n \<in> fst ` set (filled n)"
  then obtain i where i: "i < n" "key_x n = key_x i" unfolding filled_keys by auto
  from i(2) have "n = i" by (rule key_x_inj)
  with i(1) show False by simp
qed

lemma filled_mem:
  "i < n \<Longrightarrow> (key_x i, \<lparr>content = ''content'', timestamp = int i\<rparr>) \<in> set (filled n)"
  by (auto simp: filled_def)

lemma filled_Suc:
  "filled (Suc n) = filled n @ [(key_x n, \<lparr>content = ''content'', timestamp = int n\<rparr>)]"
  by (simp add: filled_def)

lemma update_append_new: "k \<notin> fst ` set c \<Longrightarrow> AList.update k v c = c @ [(k, v)]"
  by (induction c) auto

lemma store_filled:
  assumes "n < maxCacheSize"
  shows "store (filled n) (key_x n) ''content'' (int n) = filled (Suc n)"
proof -
  have "evict (filled n) = filled n" using assms by (simp add: evict_def filled_length)
  then show ?thesis
    using filled_new_key [of n] by (simp add: store_def update_append_new filled_Suc)
qed

lemma reachable_filled: "n \<le> maxCacheSize \<Longrightarrow> reachable (filled n)"
proof (induction n)
  case 0
  show ?case by (simp add: filled_def reachable_new)
next
  case (Suc n)
  then have r: "reachable (filled n)" and n: "n < maxCacheSize" by simp_all
  have "reachable (store (filled n) (cacheKey ''/w'' [replicate (Suc n) CHR ''x'']) ''content'' (int n))"
    using r by (rule reachable_store)
  then show ?case using store_filled [OF n] by (simp add: key_x_def)
qed

lemma run_ops_append: "run_ops c (a @ b) = run_ops (run_ops c a) b"
  by (simp add: run_ops_def)

lemma run_stores_filled:
  "n \<le> maxCacheSize \<Longrightarrow>
     run_ops [] (map (\<lambda>i. Store (key_x i) ''content'' (int i)) [0..<n]) = filled n"
proof (induction n)
  case 0
  show ?case by (simp add: run_ops_def filled_def)
next
  case (Suc n)
  then have ih: "run_ops [] (map (\<lambda>i. Store (key_x i) ''content'' (int i)) [0..<n]) = filled n"
    and n: "n < maxCacheSize" by simp_all
  show ?case using store_filled [OF n] by (simp add: run_ops_snoc ih)
qed

lemma lookup_filled_miss: "lookup (filled n) (key_x n) now = (None, filled n)"
proof -
  have "map_of (filled n) (key_x n) = None"
    using filled_new_key [of n] by (simp add: map_of_eq_None_iff)
  then show ?thesis by (simp add: lookup_def)
qed

lemma run_overlap_ops: "run_ops [] overlap_ops = filled maxCacheSize"
proof -
  define m where "m = maxCacheSize - 1"
  have m: "m < maxCacheSize" "Suc m = maxCacheSize" "m \<le> maxCacheSize" "int maxCacheSize - 1 = int m"
    by (simp_all add: m_def maxCacheSize_def)
  have "run_ops [] overlap_ops
      = run_ops (filled m) [Lookup (key_x m) (int m), Lookup (key_x m) (int m),
          Store (key_x m) ''content'' (int m)]"
    unfolding overlap_ops_def m_def [symmetric] m(4) run_ops_append run_stores_filled [OF m(3)] ..
  also have "\<dots> = store (filled m) (key_x m) ''content'' (int m)"
    by (simp add: run_ops_def lookup_filled_miss)
  also have "\<dots> = filled (Suc m)" using m(1) by (rule store_filled)
  finally show ?thesis by (simp add: m(2))
qed

lemma filled_full_holds_last:
  "key_x (maxCacheSize - 1) \<in> fst ` set (evict (filled maxCacheSize))"
proof -
  define c where "c = filled maxCacheSize"
  define e0 where "e0 = \<lparr>content = ''content'', timestamp = 0\<rparr>"
  define el where "el = \<lparr>content = ''content'', timestamp = int (maxCacheSize - 1)\<rparr>"
  have inv: "cache_inv c" unfolding c_def by (intro reachable_inv reachable_filled) simp
  have len: "length c = maxCacheSize" by (simp add: c_def filled_length)
  have first: "(key_x 0, e0) \<in> set c"
    using filled_mem [of 0 maxCacheSize] by (simp add: c_def e0_def maxCacheSize_def)
  have last: "(key_x (maxCacheSize - 1), el) \<in> set c"
    using filled_mem [of "maxCacheSize - 1" maxCacheSize] by (simp add: c_def el_def maxCacheSize_def)
  from evict_full [OF inv len] obtain k v where
    kv: "\<forall>(k', v') \<in> set c. timestamp v \<le> timestamp v'" "set (evict c) = set c - {(k, v)}"
    by (elim exE conjE)
  from kv(1) first have "timestamp v \<le> timestamp e0" by blast
  then have "timestamp v \<le> 0" by (simp add: e0_def)
  moreover have "0 < timestamp el" by (simp add: el_def maxCacheSize_def)
  ultimately have "v \<noteq> el" by auto
  then have "(key_x (maxCacheSize - 1), el) \<in> set (evict c)" using last kv(2) by simp
  then show ?thesis unfolding c_def by (rule rev_image_eqI) simp
qed

text \<open>
  Against claim C4 as it was stated (the cache has \<open>maxCacheSize\<close> entries after every
  insertion into a full cache). Two calls for the same key overlap: after the insertions
  of 499 other keys, both calls look the key up and miss; the first inserts it, which
  fills the cache; the insertion of the second then evicts the oldest entry and replaces
  the entry of the key, and the cache is left with 499 entries.
\<close>

theorem full_cache_replacement_counterexample:
  "reachable (run_ops [] overlap_ops)
   \<and> length (run_ops [] overlap_ops) = maxCacheSize
   \<and> length (store (run_ops [] overlap_ops) (key_x (maxCacheSize - 1)) ''content'' (int maxCacheSize))
       = maxCacheSize - 1
   \<and> length (store (run_ops [] overlap_ops) (key_x (maxCacheSize - 1)) ''content'' (int maxCacheSize))
       \<noteq> maxCacheSize"
proof -
  have r: "reachable (filled maxCacheSize)" by (rule reachable_filled) simp
  have inv: "cache_inv (filled maxCacheSize)" using r by (rule reachable_inv)
  have len: "length (filled maxCacheSize) = maxCacheSize" by (rule filled_length)
  have "length (store (filled maxCacheSize) (key_x (maxCacheSize - 1)) ''content'' (int maxCacheSize))
      = maxCacheSize - 1"
    using store_full_length [OF inv len, of "key_x (maxCacheSize - 1)" "''content''" "int maxCacheSize"]
      filled_full_holds_last by simp
  moreover have "maxCacheSize - 1 \<noteq> maxCacheSize" by (simp add: maxCacheSize_def)
  ultimately show ?thesis unfolding run_overlap_ops using r len by simp
qed

theorem runGoDoc_failure_not_cached_witness:
  "lookup [] (cacheKey ''/w'' [''nosuch'']) (now_lookup failing_env) = (None, [])
   \<and> run_command failing_env ''/w'' [''go'', ''doc'', ''nosuch'']
       = (''doc: no such package'', Some (ExitStatus 1))
   \<and> runGoDoc failing_env [] ''/w'' [''nosuch'']
       = (Inl (PackageNotFound ''doc: no such package''), [],
          [(''/w'', [''go'', ''doc'', ''nosuch''])])"
proof -
  have l: "lookup [] (cacheKey ''/w'' [''nosuch'']) (now_lookup failing_env) = (None, [])"
    by (simp add: lookup_def)
  have r: "run_command failing_env ''/w'' [''go'', ''doc'', ''nosuch'']
       = (''doc: no such package'', Some (ExitStatus 1))"
    by (simp add: failing_env_def test_env_def)
  have f: "formatGoDocError ''doc: no such package'' (ExitStatus 1)
      = PackageNotFound ''doc: no such package''"
    by (simp add: formatGoDocError_def strings_HasPrefix_def)
  from runGoDoc_failure_not_cached [OF l r] have
    "runGoDoc failing_env [] ''/w'' [''nosuch'']
       = (Inl (formatGoDocError ''doc: no such package'' (ExitStatus 1)), [],
          [(''/w'', [''go'', ''doc'', ''nosuch''])])" ..
  then show ?thesis using l r unfolding f by (intro conjI)
qed

theorem runGoDoc_second_call_hit_witness:
  "runGoDoc test_env [] ''/w'' [''io'']
     = (Inr abc_lines, [(cacheKey ''/w'' [''io''], \<lparr>content = abc_lines, timestamp = 1\<rparr>)],
        [(''/w'', [''go'', ''doc'', ''io''])])
   \<and> now_lookup later_env - 1 < cacheTTL
   \<and> runGoDoc later_env [(cacheKey ''/w'' [''io''], \<lparr>content = abc_lines, timestamp = 1\<rparr>)] ''/w'' [''io'']
     = (Inr abc_lines, [(cacheKey ''/w'' [''io''], \<lparr>content = abc_lines, timestamp = 1\<rparr>)], [])"
proof -
  define c1 where "c1 = [(cacheKey ''/w'' [''io''], \<lparr>content = abc_lines, timestamp = 1\<rparr>)]"
  have a: "runGoDoc test_env [] ''/w'' [''io'']
     = (Inr abc_lines, c1, [(''/w'', [''go'', ''doc'', ''io''])])"
    by (simp add: runGoDoc_def lookup_def test_env_def Let_def store_def evict_def
        maxCacheSize_def c1_def)
  have t: "now_lookup later_env - 1 < cacheTTL"
    by (simp add: later_env_def failing_env_def test_env_def cacheTTL_def)
  from runGoDoc_second_call_hit [OF a, of later_env] obtain entry where
    en: "map_of c1 (cacheKey ''/w'' [''io'']) = Some entry"
      "now_lookup later_env - timestamp entry < cacheTTL \<longrightarrow>
         runGoDoc later_env c1 ''/w'' [''io''] = (Inr abc_lines, c1, [])"
    by (elim exE conjE)
  from en(1) have "timestamp entry = 1" by (auto simp: c1_def)
  with en(2) t have "runGoDoc later_env c1 ''/w'' [''io''] = (Inr abc_lines, c1, [])" by simp
  with a t show ?thesis unfolding c1_def by (intro conjI)
qed

subsection \<open>The cache key\<close>

lemma Split_Cons_no_sep:
  "sep \<notin> set x \<Longrightarrow> strings_Split (x @ sep # rest) sep = x # strings_Split rest sep"
  by (induction x) (auto split: list.splits)

lemma Split_no_sep: "sep \<notin> set x \<Longrightarrow> strings_Split x sep = [x]"
  by (induction x) (auto split: list.splits)

lemma Split_Join:
  "xs \<noteq> [] \<Longrightarrow> \<forall>x \<in> set xs. sep \<notin> set x \<Longrightarrow> strings_Split (strings_Join xs [sep]) sep = xs"
proof (induction xs "[sep]" rule: strings_Join.induct)
  case 1
  then show ?case by simp
next
  case (2 x)
  then show ?case by (simp add: Split_no_sep)
next
  case (3 x y ys)
  then show ?case by (simp add: Split_Cons_no_sep)
qed

lemma cacheKey_Join: "args \<noteq> [] \<Longrightarrow> cacheKey workingDir args = strings_Join (workingDir # args) ''|''"
  by (cases args) (simp_all add: cacheKey_def)

lemma cacheKey_inj_bar_free:
  assumes "args1 \<noteq> []" and "args2 \<noteq> []"
    and "\<forall>x \<in> set (dir1 # args1). CHR ''|'' \<notin> set x"
    and "\<forall>x \<in> set (dir2 # args2). CHR ''|'' \<notin> set x"
    and "cacheKey dir1 args1 = cacheKey dir2 args2"
  shows "dir1 = dir2 \<and> args1 = args2"
proof -
  have s1: "strings_Split (strings_Join (dir1 # args1) ''|'') CHR ''|'' = dir1 # args1"
    using assms(3) by (intro Split_Join) simp_all
  have s2: "strings_Split (strings_Join (dir2 # args2) ''|'') CHR ''|'' = dir2 # args2"
    using assms(4) by (intro Split_Join) simp_all
  have "strings_Join (dir1 # args1) ''|'' = strings_Join (dir2 # args2) ''|''"
    using assms(5) unfolding cacheKey_Join [OF assms(1)] cacheKey_Join [OF assms(2)] .
  then have "strings_Split (strings_Join (dir1 # args1) ''|'') CHR ''|''
      = strings_Split (strings_Join (dir2 # args2) ''|'') CHR ''|''"
    by (rule arg_cong)
  then have "dir1 # args1 = dir2 # args2" unfolding s1 s2 .
  then show ?thesis by simp
qed

text \<open>
  Claim C2 asks that two different queries never have the same key. The key is the
  directory and the arguments joined with bars, and a bar inside an argument is not
  escaped: the arguments \<open>io\<close>, \<open>Reader\<close> and the single argument \<open>io|Reader\<close> have the same
  key. So, once the documentation of \<open>io Reader\<close> is cached, a call for \<open>io|Reader\<close>,
  for which the extractor fails on its own, returns that documentation from the cache and
  runs no command. (The derivation is a function, so equal queries have equal keys, and
  by the lemma above it is injective on queries with at least one argument and no bar in
  the directory or in an argument.)
\<close>

theorem cacheKey_collision:
  "cacheKey ''/w'' [''io'', ''Reader''] = cacheKey ''/w'' [''io|Reader'']
   \<and> [''io'', ''Reader''] \<noteq> [''io|Reader'']
   \<and> fst (runGoDoc test_env [] ''/w'' [''io'', ''Reader'']) = Inr abc_lines
   \<and> runGoDoc later_env (fst (snd (runGoDoc test_env [] ''/w'' [''io'', ''Reader'']))) ''/w'' [''io|Reader'']
       = (Inr abc_lines, fst (snd (runGoDoc test_env [] ''/w'' [''io'', ''Reader''])), [])
   \<and> fst (runGoDoc later_env [] ''/w'' [''io|Reader''])
       = Inl (PackageNotFound ''doc: no such package'')"
proof -
  have k: "cacheKey ''/w'' [''io'', ''Reader''] = cacheKey ''/w'' [''io|Reader'']"
    by (simp add: cacheKey_def)
  have a: "runGoDoc test_env [] ''/w'' [''io'', ''Reader'']
     = (Inr abc_lines, [(cacheKey ''/w'' [''io'', ''Reader''], \<lparr>content = abc_lines, timestamp = 1\<rparr>)],
        [(''/w'', [''go'', ''doc'', ''io'', ''Reader''])])"
    by (simp add: runGoDoc_def lookup_def test_env_def Let_def store_def evict_def
        maxCacheSize_def)
  have t: "now_lookup later_env - 1 < cacheTTL"
    by (simp add: later_env_def failing_env_def test_env_def cacheTTL_def)
  have b: "runGoDoc later_env [(cacheKey ''/w'' [''io'', ''Reader''], \<lparr>content = abc_lines, timestamp = 1\<rparr>)]
      ''/w'' [''io|Reader'']
     = (Inr abc_lines, [(cacheKey ''/w'' [''io'', ''Reader''], \<lparr>content = abc_lines, timestamp = 1\<rparr>)], [])"
    using runGoDoc_hit [of "[(cacheKey ''/w'' [''io'', ''Reader''], \<lparr>content = abc_lines, timestamp = 1\<rparr>)]"
        "''/w''" "[''io|Reader'']" "\<lparr>content = abc_lines, timestamp = 1\<rparr>" later_env] t
    by (simp add: k)
  have f: "formatGoDocError ''doc: no such package'' (ExitStatus 1)
      = PackageNotFound ''doc: no such package''"
    by (simp add: formatGoDocError_def strings_HasPrefix_def)
  have "lookup [] (cacheKey ''/w'' [''io|Reader'']) (now_lookup later_env) = (None, [])"
    by (simp add: lookup_def)
  moreover have "run_command later_env ''/w'' [''go'', ''doc'', ''io|Reader'']
       = (''doc: no such package'', Some (ExitStatus 1))"
    by (simp add: later_env_def failing_env_def test_env_def)
  ultimately have "runGoDoc later_env [] ''/w'' [''io|Reader'']
       = (Inl (formatGoDocError ''doc: no such package'' (ExitStatus 1)), [],
          [(''/w'', [''go'', ''doc'', ''io|Reader''])])"
    unfolding runGoDoc_def Let_def by simp
  then have c: "fst (runGoDoc later_env [] ''/w'' [''io|Reader''])
       = Inl (PackageNotFound ''doc: no such package'')"
    unfolding f by simp
  show ?thesis using k b c unfolding a by simp
qed

subsection \<open>Relative references\<close>






























subsection \<open>Further properties of the resolver, the handler and the cache\<close>

text \<open>
  A reference that begins neither with a dot nor with a slash is an import path: it is
  returned unchanged, whatever the working directory is, and no file is read.
\<close>

theorem validatePath_import_path:
  assumes "\<not> strings_HasPrefix pkgPath ''.''" and "\<not> strings_HasPrefix pkgPath ''/''"
  shows "validatePath fs pkgPath workingDir = (pkgPath, None, None)"
  using assms by (simp add: validatePath_def filepath_IsAbs_def)

theorem validatePath_import_path_witness:
  "\<not> strings_HasPrefix ''io'' ''.'' \<and> \<not> strings_HasPrefix ''io'' ''/''
   \<and> validatePath test_fs ''io'' [] = (''io'', None, None)"
proof -
  have h: "\<not> strings_HasPrefix ''io'' ''.''" "\<not> strings_HasPrefix ''io'' ''/''"
    by (simp_all add: strings_HasPrefix_def)
  from validatePath_import_path [OF h, of test_fs "[]"] h show ?thesis by (intro conjI)
qed

text \<open>
  A \<open>go.mod\<close> that holds only the line \<open>go 1.21\<close> has no module declaration:
  \<open>readModuleName\<close> fails with the error that names the file.
\<close>

theorem readModuleName_no_module:
  assumes "fs goModPath = Inr (''go 1.21'' @ [nl])"
  shows "readModuleName fs goModPath = Inl (NoModuleDeclaration goModPath)"
proof -
  have "find_module (strings_Split (''go 1.21'' @ [nl]) nl) = None"
    by code_simp
  then show ?thesis using assms by (simp add: readModuleName_def)
qed

theorem readModuleName_no_module_witness:
  "(\<lambda>p. Inr (''go 1.21'' @ [nl])) ''/w/go.mod'' = (Inr (''go 1.21'' @ [nl]) :: string + string)
   \<and> readModuleName (\<lambda>p. Inr (''go 1.21'' @ [nl])) ''/w/go.mod''
       = Inl (NoModuleDeclaration ''/w/go.mod'')"
proof -
  have h: "(\<lambda>p. Inr (''go 1.21'' @ [nl])) ''/w/go.mod'' = (Inr (''go 1.21'' @ [nl]) :: string + string)"
    by simp
  from readModuleName_no_module [of "\<lambda>p. Inr (''go 1.21'' @ [nl])" "''/w/go.mod''", OF h] h
  show ?thesis by (intro conjI)
qed

text \<open>
  An output of the extractor that contains \<open>no such package\<close> is classified as a package
  that was not found, and the failure carries the output.
\<close>

theorem formatGoDocError_no_such_package:
  assumes "strings_Contains output ''no such package''"
  shows "formatGoDocError output err = PackageNotFound output"
  using assms by (simp add: formatGoDocError_def)

theorem formatGoDocError_no_such_package_witness:
  "strings_Contains ''doc: no such package'' ''no such package''
   \<and> formatGoDocError ''doc: no such package'' (ExitStatus 1)
       = PackageNotFound ''doc: no such package''"
proof -
  have h: "strings_Contains ''doc: no such package'' ''no such package''"
    by (simp add: strings_HasPrefix_def)
  from formatGoDocError_no_such_package [OF h, of "ExitStatus 1"] h show ?thesis by (intro conjI)
qed

text \<open>
  A request with a flag outside the allowed five is answered with the error for the first
  such flag; the cache is untouched and the answer does not depend on what any command
  would do, so no command is run for it.
\<close>

theorem handleGetDoc_rejects_flag:
  assumes "req_path request = Some pkgPath"
    and "get_default (req_working_dir request) [] = [] \<or> is_directory e (get_default (req_working_dir request) [])"
    and "find (\<lambda>f. \<not> allowedFlags f) (get_default (req_cmd_flags request) []) = Some flag"
  shows "handleGetDoc (e\<lparr>run_command := rc\<rparr>) c request = (ToolResultError (UnsupportedFlag flag), c)"
  using assms by (auto simp: handleGetDoc_def Let_def)

theorem handleGetDoc_rejects_flag_witness:
  "req_path (test_request\<lparr>req_cmd_flags := Some [''-all'', ''-overlay'']\<rparr>) = Some ''io''
   \<and> is_directory test_env ''/w''
   \<and> find (\<lambda>f. \<not> allowedFlags f) [''-all'', ''-overlay''] = Some ''-overlay''
   \<and> handleGetDoc (test_env\<lparr>run_command := (\<lambda>dir argv. ([], Some SignalKilled))\<rparr>) []
        (test_request\<lparr>req_cmd_flags := Some [''-all'', ''-overlay'']\<rparr>)
      = (ToolResultError (UnsupportedFlag ''-overlay''), [])"
proof -
  define r where "r = test_request\<lparr>req_cmd_flags := Some [''-all'', ''-overlay'']\<rparr>"
  have a: "req_path r = Some ''io''" by (simp add: r_def test_request_def)
  have d: "is_directory test_env ''/w''" by (simp add: test_env_def)
  have b: "get_default (req_working_dir r) [] = [] \<or> is_directory test_env (get_default (req_working_dir r) [])"
    by (simp add: r_def test_request_def get_default_def test_env_def)
  have f: "find (\<lambda>f. \<not> allowedFlags f) [''-all'', ''-overlay''] = Some ''-overlay''"
    by (simp add: allowedFlags_def)
  then have f': "find (\<lambda>f. \<not> allowedFlags f) (get_default (req_cmd_flags r) []) = Some ''-overlay''"
    by (simp add: r_def get_default_def)
  from handleGetDoc_rejects_flag [OF a b f', of "\<lambda>dir argv. ([], Some SignalKilled)" "[]"] a d f
  show ?thesis unfolding r_def by (intro conjI)
qed

text \<open>
  Every cache that the server reaches from the empty one, by critical sections of
  \<open>runGoDoc\<close> in any order, has distinct keys, none of them empty, and at most
  \<open>maxCacheSize\<close> entries.
\<close>

theorem reachable_bounded:
  assumes "reachable c"
  shows "cache_inv c \<and> length c \<le> maxCacheSize"
  using assms
proof (induction rule: reachable.induct)
  case reachable_new
  show ?case by (simp add: cache_inv_def)
next
  case (reachable_lookup c workingDir args now)
  then show ?case
    using lookup_inv [of c "cacheKey workingDir args" now]
      lookup_length [of c "cacheKey workingDir args" now] by simp
next
  case (reachable_store c workingDir args doc now)
  then show ?case
    using store_inv [OF _ cacheKey_nonempty, of c workingDir args doc now]
      store_length [of c "cacheKey workingDir args" doc now] by simp
qed

theorem reachable_bounded_witness:
  "reachable (store [] (cacheKey ''/w'' [''io'']) abc_lines 1)
   \<and> cache_inv (store [] (cacheKey ''/w'' [''io'']) abc_lines 1)
   \<and> length (store [] (cacheKey ''/w'' [''io'']) abc_lines 1) \<le> maxCacheSize"
proof -
  have r: "reachable (store [] (cacheKey ''/w'' [''io'']) abc_lines 1)"
    by (intro reachable_store reachable_new)
  from reachable_bounded [OF r] r show ?thesis by (intro conjI) simp_all
qed

text \<open>
  An entry whose age has reached \<open>cacheTTL\<close> is not returned: the lookup misses and
  removes it from the cache (as \<open>TestCacheExpiry\<close> checks).
\<close>

theorem lookup_expired:
  assumes "map_of c key = Some entry" and "cacheTTL \<le> now - timestamp entry"
  shows "lookup c key now = (None, AList.delete key c)
    \<and> map_of (snd (lookup c key now)) key = None"
  using assms by (simp add: lookup_def AList.delete_conv')

theorem lookup_expired_witness:
  "map_of [(''expired'', \<lparr>content = ''old'', timestamp = - cacheTTL - 1000000000\<rparr>),
           (''fresh'', \<lparr>content = ''new'', timestamp = 0\<rparr>)] ''expired''
     = Some \<lparr>content = ''old'', timestamp = - cacheTTL - 1000000000\<rparr>
   \<and> cacheTTL \<le> 0 - timestamp \<lparr>content = ''old'', timestamp = - cacheTTL - 1000000000\<rparr>
   \<and> lookup [(''expired'', \<lparr>content = ''old'', timestamp = - cacheTTL - 1000000000\<rparr>),
           (''fresh'', \<lparr>content = ''new'', timestamp = 0\<rparr>)] ''expired'' 0
     = (None, [(''fresh'', \<lparr>content = ''new'', timestamp = 0\<rparr>)])"
proof -
  define c where "c = [(''expired'', \<lparr>content = ''old'', timestamp = - cacheTTL - 1000000000\<rparr>),
           (''fresh'', \<lparr>content = ''new'', timestamp = 0\<rparr>)]"
  have a: "map_of c ''expired'' = Some \<lparr>content = ''old'', timestamp = - cacheTTL - 1000000000\<rparr>"
    by (simp add: c_def)
  have b: "cacheTTL \<le> 0 - timestamp \<lparr>content = ''old'', timestamp = - cacheTTL - 1000000000\<rparr>"
    by simp
  have d: "AList.delete ''expired'' c = [(''fresh'', \<lparr>content = ''new'', timestamp = 0\<rparr>)]"
    by (simp add: c_def)
  from lookup_expired [OF a b] have "lookup c ''expired'' 0 = (None, AList.delete ''expired'' c)" ..
  then have "lookup c ''expired'' 0 = (None, [(''fresh'', \<lparr>content = ''new'', timestamp = 0\<rparr>)])"
    unfolding d .
  with a b show ?thesis unfolding c_def by (intro conjI)
qed

text \<open>
  The key derivation is injective on the queries with at least one argument in which
  neither the directory nor an argument contains a bar; here on two queries that differ in
  one argument.
\<close>

theorem cacheKey_inj_bar_free_witness:
  "[''io''] \<noteq> [] \<and> [''fmt''] \<noteq> []
   \<and> cacheKey ''/w'' [''io''] \<noteq> cacheKey ''/w'' [''fmt'']"
proof -
  have "cacheKey ''/w'' [''io''] = cacheKey ''/w'' [''fmt''] \<Longrightarrow> False"
    using cacheKey_inj_bar_free [of "[''io'']" "[''fmt'']" "''/w''" "''/w''"] by simp
  then show ?thesis by auto
qed

text \<open>The tables of \<open>TestIsStdLib\<close> and \<open>TestAllowedFlags\<close>.\<close>

theorem isStdLib_table:
  "isStdLib ''io'' \<and> isStdLib ''net/http'' \<and> isStdLib ''fmt'' \<and> isStdLib ''crypto/tls''
   \<and> isStdLib [] \<and> \<not> isStdLib ''github.com/user/repo'' \<and> \<not> isStdLib ''golang.org/x/net''
   \<and> \<not> isStdLib ''example.com/pkg'' \<and> isStdLib ''v2''"
  by code_simp

theorem allowedFlags_table:
  "allowedFlags ''-all'' \<and> allowedFlags ''-src'' \<and> allowedFlags ''-u'' \<and> allowedFlags ''-short''
   \<and> allowedFlags ''-c'' \<and> \<not> allowedFlags ''-C'' \<and> \<not> allowedFlags ''-modfile''
   \<and> \<not> allowedFlags ''--all'' \<and> \<not> allowedFlags ''-overlay'' \<and> \<not> allowedFlags []"
  by code_simp

end
